theory Spec2Isabelle
  imports Complex_Main
begin

section \<open>Data model of mgo.py\<close>

text \<open>
  The program keeps two Python lists of lists. A node is
  \<^verbatim>\<open>[index, x, y, area_m2, marg_dist, tot_dist, connected, arc indices...]\<close>
  and an arc is
  \<^verbatim>\<open>[index, xs, ys, xe, ye, node_start, node_end, directed, length, enabled]\<close>.
  Coordinates, areas, indices and the 0/1 flags are Python ints. Lengths and all
  money figures are Python floats; they are modelled as reals, so rounding, infinities
  and NaN are outside the model. The variable-length tail \<^verbatim>\<open>node[7:]\<close> is the
  field \<open>arc_refs\<close>.
\<close>

record node =
  n_index :: int
  n_x :: int
  n_y :: int
  area_m2 :: int
  marg_dist :: real
  tot_dist :: real
  connected :: int
  arc_refs :: "int list"

record arc =
  a_index :: int
  a_xs :: int
  a_ys :: int
  a_xe :: int
  a_ye :: int
  node_start :: int
  node_end :: int
  directed :: int
  arc_length :: real
  enabled :: int

text \<open>The exceptions the modelled statements can raise.\<close>

datatype py_error =
  IndexError | RecursionError | ZeroDivisionError | ValueError | UnboundLocalError
  | OverflowError

text \<open>
  Python list indexing: \<^verbatim>\<open>xs[i]\<close> with \<open>0 \<le> i < len\<close> is position \<open>i\<close>, with
  \<open>-len \<le> i < 0\<close> it is position \<open>len + i\<close>, anything else raises IndexError.
\<close>

definition py_pos :: "nat \<Rightarrow> int \<Rightarrow> nat option" where
  "py_pos n i =
     (if 0 \<le> i \<and> i < int n then Some (nat i)
      else if - int n \<le> i \<and> i < 0 then Some (nat (int n + i))
      else None)"

definition py_get :: "'a list \<Rightarrow> int \<Rightarrow> py_error + 'a" where
  "py_get xs i = (case py_pos (length xs) i of None \<Rightarrow> Inl IndexError | Some p \<Rightarrow> Inr (xs ! p))"

definition py_update :: "'a list \<Rightarrow> int \<Rightarrow> ('a \<Rightarrow> 'a) \<Rightarrow> py_error + 'a list" where
  "py_update xs i f =
     (case py_pos (length xs) i of
        None \<Rightarrow> Inl IndexError
      | Some p \<Rightarrow> Inr (xs[p := f (xs ! p)]))"

text \<open>
  \<^verbatim>\<open>[network[arc_index] for arc_index in refs]\<close>: every index is resolved to a
  position before the loop that follows runs; the first bad index raises.
\<close>

fun resolve_refs :: "nat \<Rightarrow> int list \<Rightarrow> py_error + nat list" where
  "resolve_refs n [] = Inr []"
| "resolve_refs n (r # rs) =
     (case py_pos n r of
        None \<Rightarrow> Inl IndexError
      | Some p \<Rightarrow> (case resolve_refs n rs of Inl e \<Rightarrow> Inl e | Inr ps \<Rightarrow> Inr (p # ps)))"

definition lookup_arcs :: "arc list \<Rightarrow> int list \<Rightarrow> py_error + arc list" where
  "lookup_arcs network refs =
     (case resolve_refs (length network) refs of
        Inl e \<Rightarrow> Inl e
      | Inr ps \<Rightarrow> Inr (map ((!) network) ps))"

text \<open>A \<^verbatim>\<open>for\<close> loop over a list whose body may raise: the first exception ends it.\<close>

fun for_each :: "('a \<Rightarrow> 's \<Rightarrow> py_error + 's) \<Rightarrow> 'a list \<Rightarrow> 's \<Rightarrow> py_error + 's" where
  "for_each body [] s = Inr s"
| "for_each body (x # xs) s =
     (case body x s of Inl e \<Rightarrow> Inl e | Inr s' \<Rightarrow> for_each body xs s')"

section \<open>Economic configuration\<close>

text \<open>
  The parameters of \<^verbatim>\<open>run_model\<close> after its \<^verbatim>\<open>float(...)\<close> and \<^verbatim>\<open>int(...)\<close>
  conversions.
\<close>

record econ =
  demand_per_person_kwh_month :: real
  tariff :: real
  gen_cost_per_kw :: real
  cost_wire :: real
  cost_connection :: real
  opex_ratio :: real
  years :: int
  discount_rate :: real

definition num_people_per_m2 :: real where
  "num_people_per_m2 = 15 / 100"

definition demand_per_person_kw_peak :: "econ \<Rightarrow> real" where
  "demand_per_person_kw_peak P = demand_per_person_kwh_month P / (4 * 30)"

section \<open>calculate_profit\<close>

text \<open>
  \<^verbatim>\<open>calculate_profit(nodes, network, index, disabled_arc_index, cost, income_per_month)\<close>
  is recursive over the graph. The first argument of the model is the number of stack
  frames still available: Python raises RecursionError when the interpreter's recursion
  limit is exceeded, which is what happens on a cyclic arc list. The function returns
  the two lists it was given, and the caller rebinds them, so the model threads them
  through the loop as the source does.
\<close>

fun calculate_profit ::
  "nat \<Rightarrow> econ \<Rightarrow> node list \<Rightarrow> arc list \<Rightarrow> int \<Rightarrow> int \<Rightarrow> real \<Rightarrow> real
     \<Rightarrow> py_error + (real \<times> real \<times> node list \<times> arc list)" where
  "calculate_profit 0 P nodes network index disabled_arc_index cost income_per_month =
     Inl RecursionError"
| "calculate_profit (Suc depth) P nodes network index disabled_arc_index cost income_per_month =
     (case py_get nodes index of
        Inl e \<Rightarrow> Inl e
      | Inr nd \<Rightarrow>
          let cost1 = cost + (cost_wire P * marg_dist nd + cost_connection P);
              income1 = income_per_month
                + real_of_int (area_m2 nd) * num_people_per_m2
                    * demand_per_person_kwh_month P * tariff P
          in (case lookup_arcs network (arc_refs nd) of
                Inl e \<Rightarrow> Inl e
              | Inr connected_arcs \<Rightarrow>
                  for_each
                    (\<lambda>a (c, i, ns, nw).
                       if enabled a = 1 \<and> a_index a \<noteq> disabled_arc_index \<and> node_start a = index
                       then calculate_profit depth P ns nw (node_end a) disabled_arc_index c i
                       else Inr (c, i, ns, nw))
                    connected_arcs (cost1, income1, nodes, network)))"

section \<open>Net present value\<close>

text \<open>
  \<^verbatim>\<open>flows = np.ones(years) * (income - opex); flows[0] = -capex\<close>. A negative
  \<^verbatim>\<open>years\<close> makes \<^verbatim>\<open>np.ones\<close> raise ValueError, and \<^verbatim>\<open>years == 0\<close> makes the
  assignment to \<^verbatim>\<open>flows[0]\<close> raise IndexError.
\<close>

definition np_ones_times :: "int \<Rightarrow> real \<Rightarrow> py_error + real list" where
  "np_ones_times n v = (if n < 0 then Inl ValueError else Inr (replicate (nat n) v))"

definition set_first :: "real list \<Rightarrow> real \<Rightarrow> py_error + real list" where
  "set_first flows v = (case flows of [] \<Rightarrow> Inl IndexError | _ # _ \<Rightarrow> Inr (flows[0 := v]))"

text \<open>
  \<^verbatim>\<open>np.npv(rate, values)\<close> is numpy's
  \<^verbatim>\<open>(values / (1 + rate) ** np.arange(0, len(values))).sum()\<close>.
\<close>

definition np_npv :: "real \<Rightarrow> real list \<Rightarrow> real" where
  "np_npv rate vals = sum_list (map (\<lambda>t. vals ! t / (1 + rate) ^ t) [0..<length vals])"

text \<open>
  The block \<^verbatim>\<open>opex = opex_ratio * capex; flows = ...; npv = np.npv(discount_rate, flows)\<close>
  occurs three times in \<^verbatim>\<open>run_model\<close> (both scans and the report), each time after
  \<^verbatim>\<open>capex\<close> and \<^verbatim>\<open>income\<close> have been computed.
\<close>

definition cash_flow_npv :: "econ \<Rightarrow> real \<Rightarrow> real \<Rightarrow> py_error + real" where
  "cash_flow_npv P capex income =
     (let opex = opex_ratio P * capex
      in case np_ones_times (years P) (income - opex) of
           Inl e \<Rightarrow> Inl e
         | Inr flows \<Rightarrow>
             (case set_first flows (- capex) of
                Inl e \<Rightarrow> Inl e
              | Inr flows' \<Rightarrow> Inr (np_npv (discount_rate P) flows')))"

section \<open>The pruning loops of run_model\<close>

text \<open>Lines 288-291: the generator is sized once, from every node of the list.\<close>

definition gen_size_kw :: "econ \<Rightarrow> node list \<Rightarrow> real" where
  "gen_size_kw P nodes =
     real_of_int (sum_list (map area_m2 nodes)) * num_people_per_m2 * demand_per_person_kw_peak P"

definition cost_gen :: "econ \<Rightarrow> node list \<Rightarrow> real" where
  "cost_gen P nodes = gen_size_kw P nodes * gen_cost_per_kw P"

text \<open>
  The body of both scans up to \<^verbatim>\<open>npv = np.npv(...)\<close>: the network is evaluated
  with the arc of index \<open>cut_index\<close> treated as disabled. \<open>cg\<close> is \<^verbatim>\<open>cost_gen\<close>.
\<close>

definition evaluate_cut ::
  "nat \<Rightarrow> econ \<Rightarrow> real \<Rightarrow> node list \<Rightarrow> arc list \<Rightarrow> int
     \<Rightarrow> py_error + (real \<times> node list \<times> arc list)" where
  "evaluate_cut depth P cg nodes network cut_index =
     (case calculate_profit depth P nodes network 0 cut_index 0 0 of
        Inl e \<Rightarrow> Inl e
      | Inr (cost, income_per_month, ns, nw) \<Rightarrow>
          let capex = cg + cost;
              income = income_per_month * 12
          in (case cash_flow_npv P capex income of
                Inl e \<Rightarrow> Inl e
              | Inr npv \<Rightarrow> Inr (npv, ns, nw)))"

text \<open>
  The state of a scan: \<^verbatim>\<open>found\<close>, \<^verbatim>\<open>best_npv\<close>, \<^verbatim>\<open>best_npv_index\<close> (\<open>None\<close>
  while the variable is unbound), \<^verbatim>\<open>nodes\<close> and \<^verbatim>\<open>network\<close>. The \<^verbatim>\<open>for arc in network\<close>
  of a scan runs over the list as it is when the scan starts; nothing in the body
  assigns to a list element.
\<close>

type_synonym scan_state = "bool \<times> real \<times> int option \<times> node list \<times> arc list"

definition npv_scan_step :: "nat \<Rightarrow> econ \<Rightarrow> real \<Rightarrow> arc \<Rightarrow> scan_state \<Rightarrow> py_error + scan_state" where
  "npv_scan_step depth P cg a =
     (\<lambda>(found, best_npv, best_npv_index, ns, nw).
        case evaluate_cut depth P cg ns nw (a_index a) of
          Inl e \<Rightarrow> Inl e
        | Inr (npv, ns', nw') \<Rightarrow>
            if npv > best_npv then Inr (True, npv, Some (a_index a), ns', nw')
            else Inr (found, best_npv, best_npv_index, ns', nw'))"

definition coverage_scan_step :: "nat \<Rightarrow> econ \<Rightarrow> real \<Rightarrow> arc \<Rightarrow> scan_state \<Rightarrow> py_error + scan_state" where
  "coverage_scan_step depth P cg a =
     (\<lambda>(found, best_npv, best_npv_index, ns, nw).
        case evaluate_cut depth P cg ns nw (a_index a) of
          Inl e \<Rightarrow> Inl e
        | Inr (npv, ns', nw') \<Rightarrow>
            if npv > best_npv \<and> enabled a = 1 then Inr (True, npv, Some (a_index a), ns', nw')
            else Inr (found, best_npv, best_npv_index, ns', nw'))"

definition npv_scan :: "nat \<Rightarrow> econ \<Rightarrow> real \<Rightarrow> scan_state \<Rightarrow> py_error + scan_state" where
  "npv_scan depth P cg st = for_each (npv_scan_step depth P cg) (snd (snd (snd (snd st)))) st"

definition coverage_scan :: "nat \<Rightarrow> econ \<Rightarrow> real \<Rightarrow> scan_state \<Rightarrow> py_error + scan_state" where
  "coverage_scan depth P cg st = for_each (coverage_scan_step depth P cg) (snd (snd (snd (snd st)))) st"

text \<open>\<^verbatim>\<open>network[best_npv_index][9] = 0\<close>.\<close>

definition disable_best :: "arc list \<Rightarrow> int option \<Rightarrow> py_error + arc list" where
  "disable_best network best_npv_index =
     (case best_npv_index of
        None \<Rightarrow> Inl UnboundLocalError
      | Some i \<Rightarrow> py_update network i (\<lambda>a. a\<lparr>enabled := 0\<rparr>))"

definition sentinel_npv :: real where
  "sentinel_npv = - 9999999"

text \<open>
  The two \<^verbatim>\<open>while True\<close> loops. The first argument counts the rounds still allowed:
  \<open>None\<close> means that the loop has not left after that many rounds. \<open>Some (Inl e)\<close> is
  an exception, \<open>Some (Inr (nodes, network))\<close> is the state at \<^verbatim>\<open>break\<close>.
\<close>

fun npv_mode_loop ::
  "nat \<Rightarrow> nat \<Rightarrow> econ \<Rightarrow> real \<Rightarrow> real \<Rightarrow> int option \<Rightarrow> node list \<Rightarrow> arc list
     \<Rightarrow> (py_error + node list \<times> arc list) option" where
  "npv_mode_loop 0 depth P cg best_npv best_npv_index nodes network = None"
| "npv_mode_loop (Suc rounds) depth P cg best_npv best_npv_index nodes network =
     (case npv_scan depth P cg (False, best_npv, best_npv_index, nodes, network) of
        Inl e \<Rightarrow> Some (Inl e)
      | Inr (found, best_npv', best_npv_index', ns, nw) \<Rightarrow>
          if found then
            (case disable_best nw best_npv_index' of
               Inl e \<Rightarrow> Some (Inl e)
             | Inr nw' \<Rightarrow> npv_mode_loop rounds depth P cg best_npv' best_npv_index' ns nw')
          else Some (Inr (ns, nw)))"

definition actual_coverage :: "arc list \<Rightarrow> nat \<Rightarrow> py_error + real" where
  "actual_coverage network total_arcs =
     (if total_arcs = 0 then Inl ZeroDivisionError
      else Inr (real (length (filter (\<lambda>a. enabled a = 1) network)) / real total_arcs))"

fun coverage_mode_loop ::
  "nat \<Rightarrow> nat \<Rightarrow> econ \<Rightarrow> real \<Rightarrow> real \<Rightarrow> nat \<Rightarrow> int option \<Rightarrow> node list \<Rightarrow> arc list
     \<Rightarrow> (py_error + node list \<times> arc list) option" where
  "coverage_mode_loop 0 depth P cg target_coverage total_arcs best_npv_index nodes network = None"
| "coverage_mode_loop (Suc rounds) depth P cg target_coverage total_arcs best_npv_index nodes network =
     (case coverage_scan depth P cg (False, sentinel_npv, best_npv_index, nodes, network) of
        Inl e \<Rightarrow> Some (Inl e)
      | Inr (found, best_npv', best_npv_index', ns, nw) \<Rightarrow>
          (case (if found then disable_best nw best_npv_index' else Inr nw) of
             Inl e \<Rightarrow> Some (Inl e)
           | Inr nw' \<Rightarrow>
               (case actual_coverage nw' total_arcs of
                  Inl e \<Rightarrow> Some (Inl e)
                | Inr cov \<Rightarrow>
                    if cov \<le> target_coverage then Some (Inr (ns, nw'))
                    else coverage_mode_loop rounds depth P cg target_coverage total_arcs
                           best_npv_index' ns nw')))"

text \<open>Lines 288-389: \<^verbatim>\<open>target_coverage == -1\<close> selects the NPV mode.\<close>

definition prune_network ::
  "nat \<Rightarrow> nat \<Rightarrow> econ \<Rightarrow> real \<Rightarrow> node list \<Rightarrow> arc list
     \<Rightarrow> (py_error + node list \<times> arc list) option" where
  "prune_network rounds depth P target_coverage nodes network =
     (let cg = cost_gen P nodes
      in if target_coverage = - 1
         then npv_mode_loop rounds depth P cg sentinel_npv None nodes network
         else coverage_mode_loop rounds depth P cg target_coverage (length network) None
                nodes network)"

section \<open>Connectivity and report\<close>

text \<open>
  \<^verbatim>\<open>connect_houses(nodes, network, index)\<close> sets \<^verbatim>\<open>nodes[index][6] = 1\<close> in place and
  recurses along the enabled arcs that start at \<^verbatim>\<open>index\<close>.
\<close>

fun connect_houses ::
  "nat \<Rightarrow> node list \<Rightarrow> arc list \<Rightarrow> int \<Rightarrow> py_error + (node list \<times> arc list)" where
  "connect_houses 0 nodes network index = Inl RecursionError"
| "connect_houses (Suc depth) nodes network index =
     (case py_pos (length nodes) index of
        None \<Rightarrow> Inl IndexError
      | Some p \<Rightarrow>
          let nodes1 = nodes[p := (nodes ! p)\<lparr>connected := 1\<rparr>]
          in (case lookup_arcs network (arc_refs (nodes1 ! p)) of
                Inl e \<Rightarrow> Inl e
              | Inr connected_arcs \<Rightarrow>
                  for_each
                    (\<lambda>a (ns, nw).
                       if enabled a = 1 \<and> node_start a = index
                       then connect_houses depth ns nw (node_end a)
                       else Inr (ns, nw))
                    connected_arcs (nodes1, network)))"

text \<open>
  Lines 412-416: every arc listed by a node with \<^verbatim>\<open>node[6] == 0\<close> has its enabled
  flag set to 0.
\<close>

definition disable_at :: "nat \<Rightarrow> arc list \<Rightarrow> arc list" where
  "disable_at p network = network[p := (network ! p)\<lparr>enabled := 0\<rparr>]"

definition strand_step :: "node \<Rightarrow> arc list \<Rightarrow> py_error + arc list" where
  "strand_step nd network =
     (if connected nd = 0 then
        (case resolve_refs (length network) (arc_refs nd) of
           Inl e \<Rightarrow> Inl e
         | Inr ps \<Rightarrow> Inr (fold disable_at ps network))
      else Inr network)"

definition disable_stranded :: "node list \<Rightarrow> arc list \<Rightarrow> py_error + arc list" where
  "disable_stranded nodes network = for_each strand_step nodes network"

text \<open>The Connectivity Resolver: lines 409-416.\<close>

definition resolve_connectivity ::
  "nat \<Rightarrow> node list \<Rightarrow> arc list \<Rightarrow> py_error + (node list \<times> arc list)" where
  "resolve_connectivity depth nodes network =
     (case connect_houses depth nodes network 0 of
        Inl e \<Rightarrow> Inl e
      | Inr (ns, nw) \<Rightarrow>
          (case disable_stranded ns nw of
             Inl e \<Rightarrow> Inl e
           | Inr nw' \<Rightarrow> Inr (ns, nw')))"

text \<open>Lines 422-444: the figures of the report.\<close>

definition connected_nodes :: "node list \<Rightarrow> node list" where
  "connected_nodes nodes = filter (\<lambda>n. connected n = 1) nodes"

definition count_nodes :: "node list \<Rightarrow> int" where
  "count_nodes nodes = int (length (connected_nodes nodes)) - 1"

definition report_income_per_month :: "econ \<Rightarrow> node list \<Rightarrow> real" where
  "report_income_per_month P nodes =
     sum_list (map (\<lambda>n. real_of_int (area_m2 n) * num_people_per_m2
                            * demand_per_person_kwh_month P * tariff P)
                   (connected_nodes nodes))"

definition report_gen_size_kw :: "econ \<Rightarrow> node list \<Rightarrow> real" where
  "report_gen_size_kw P nodes =
     sum_list (map (\<lambda>n. real_of_int (area_m2 n) * num_people_per_m2
                            * demand_per_person_kw_peak P)
                   (connected_nodes nodes))"

definition total_length :: "arc list \<Rightarrow> real" where
  "total_length network = sum_list (map arc_length (filter (\<lambda>a. enabled a = 1) network))"

definition report_capex :: "econ \<Rightarrow> node list \<Rightarrow> arc list \<Rightarrow> real" where
  "report_capex P nodes network =
     report_gen_size_kw P nodes * gen_cost_per_kw P
       + cost_connection P * real_of_int (count_nodes nodes)
       + cost_wire P * total_length network"

definition report_npv :: "econ \<Rightarrow> node list \<Rightarrow> arc list \<Rightarrow> py_error + real" where
  "report_npv P nodes network =
     cash_flow_npv P (report_capex P nodes network) (report_income_per_month P nodes * 12)"

text \<open>
  Lines 446-452: the dictionary \<^verbatim>\<open>results\<close>. Its entry \<^verbatim>\<open>connected\<close> is a Python
  int and is stored as computed. The other six entries are floats stored through
  \<^verbatim>\<open>int(...)\<close>, which truncates the float: where rounding leaves the float just
  short of a whole number that the exact value reaches, the stored integer is one less
  than the truncation of the exact value. Floats are reals in this model, so the
  truncation is not modelled: for these six entries the record holds the value that
  \<^verbatim>\<open>int\<close> is applied to.

  \<^verbatim>\<open>int\<close> raises on a float that is not finite. With \<^verbatim>\<open>discount_rate == -1\<close> and a
  project of two years or more, \<^verbatim>\<open>np.npv\<close> divides every flow after the first by
  zero: the NPV is infinite and \<^verbatim>\<open>int(npv)\<close> raises OverflowError, or, when income
  equals opex, it is not a number and \<^verbatim>\<open>int(npv)\<close> raises ValueError. (In the scans
  such an NPV is only compared, which raises nothing; the real that \<open>cash_flow_npv\<close>
  gives for it there stands for no float.)
\<close>

definition int_of_npv_error :: "econ \<Rightarrow> real \<Rightarrow> real \<Rightarrow> py_error option" where
  "int_of_npv_error P capex income =
     (if discount_rate P = - 1 \<and> 1 < years P
      then Some (if income - opex_ratio P * capex = 0 then ValueError else OverflowError)
      else None)"

record results =
  r_connected :: int
  r_gen_size :: real
  r_length :: real
  r_capex :: real
  r_opex :: real
  r_income :: real
  r_npv :: real

definition report :: "econ \<Rightarrow> node list \<Rightarrow> arc list \<Rightarrow> py_error + results" where
  "report P nodes network =
     (case report_npv P nodes network of
        Inl e \<Rightarrow> Inl e
      | Inr npv \<Rightarrow>
          (case int_of_npv_error P (report_capex P nodes network)
                  (report_income_per_month P nodes * 12) of
             Some e \<Rightarrow> Inl e
           | None \<Rightarrow>
               Inr \<lparr>r_connected = count_nodes nodes,
                    r_gen_size = report_gen_size_kw P nodes,
                    r_length = total_length network,
                    r_capex = report_capex P nodes network,
                    r_opex = opex_ratio P * report_capex P nodes network,
                    r_income = report_income_per_month P nodes * 12,
                    r_npv = npv\<rparr>))"

text \<open>Lines 395-454: what \<^verbatim>\<open>run_model\<close> does once a pruning loop has left.\<close>

definition resolve_and_report ::
  "nat \<Rightarrow> econ \<Rightarrow> node list \<Rightarrow> arc list \<Rightarrow> py_error + (results \<times> arc list \<times> node list)" where
  "resolve_and_report depth P nodes network =
     (case resolve_connectivity depth nodes network of
        Inl e \<Rightarrow> Inl e
      | Inr (ns, nw) \<Rightarrow>
          (case report P ns nw of
             Inl e \<Rightarrow> Inl e
           | Inr res \<Rightarrow> Inr (res, nw, ns)))"

definition run_model ::
  "nat \<Rightarrow> nat \<Rightarrow> arc list \<Rightarrow> node list \<Rightarrow> econ \<Rightarrow> real
     \<Rightarrow> (py_error + (results \<times> arc list \<times> node list)) option" where
  "run_model rounds depth network nodes P target_coverage =
     (case prune_network rounds depth P target_coverage nodes network of
        None \<Rightarrow> None
      | Some (Inl e) \<Rightarrow> Some (Inl e)
      | Some (Inr (ns, nw)) \<Rightarrow> Some (resolve_and_report depth P ns nw))"

section \<open>direct_network\<close>

text \<open>
  The first two branches of the loop body: an arc that starts at the current node is
  taken as it is, one that ends there is flipped, and an arc whose directed flag is
  already 1 is skipped (\<^verbatim>\<open>continue\<close>).
\<close>

definition flip_arc :: "arc \<Rightarrow> arc" where
  "flip_arc a = a\<lparr>a_xs := a_xe a, a_ys := a_ye a, a_xe := a_xs a, a_ye := a_ys a\<rparr>"

definition match_arc :: "node \<Rightarrow> arc \<Rightarrow> arc option" where
  "match_arc cur a =
     (if a_xs a = n_x cur \<and> a_ys a = n_y cur then
        (if directed a = 1 then None else Some a)
      else if a_xe a = n_x cur \<and> a_ye a = n_y cur then
        (if directed a = 1 then None else Some (flip_arc a))
      else None)"

text \<open>\<^verbatim>\<open>arc[5] = nodes[index][0]; arc[7] = 1\<close>.\<close>

definition start_arc :: "node \<Rightarrow> arc \<Rightarrow> arc" where
  "start_arc cur a = a\<lparr>node_start := n_index cur, directed := 1\<rparr>"

text \<open>
  The inner \<^verbatim>\<open>for node in nodes\<close> stops at the first node whose coordinates are
  the arc's end (\<^verbatim>\<open>break\<close>).
\<close>

fun first_node_at :: "node list \<Rightarrow> int \<Rightarrow> int \<Rightarrow> nat option" where
  "first_node_at [] x y = None"
| "first_node_at (n # ns) x y =
     (if n_x n = x \<and> n_y n = y then Some 0 else map_option Suc (first_node_at ns x y))"

text \<open>
  \<^verbatim>\<open>node[4] = arc[8]; node[5] = nodes[index][5] + arc[8]\<close>. Only field 4 of a node
  is written before \<^verbatim>\<open>nodes[index][5]\<close> is read, so the value read is that of the
  current node as it was when the iteration began.
\<close>

definition reach_node :: "node \<Rightarrow> arc \<Rightarrow> node \<Rightarrow> node" where
  "reach_node cur a nd =
     nd\<lparr>marg_dist := arc_length a, tot_dist := tot_dist cur + arc_length a\<rparr>"

text \<open>\<^verbatim>\<open>arc[6] = node[0]\<close> and \<^verbatim>\<open>if node[5] > max_tot_length: arc[9] = 0\<close>.\<close>

definition end_arc :: "real \<Rightarrow> node \<Rightarrow> node \<Rightarrow> arc \<Rightarrow> arc" where
  "end_arc max_tot_length cur nd a =
     (let a' = a\<lparr>node_end := n_index nd\<rparr>
      in if tot_dist (reach_node cur a nd) > max_tot_length then a'\<lparr>enabled := 0\<rparr> else a')"

text \<open>
  \<^verbatim>\<open>direct_network(nodes, network, index)\<close> mutates both lists in place while it
  iterates over \<^verbatim>\<open>network\<close>, and calls itself inside the loop: the model iterates
  over the positions of the list and reads each arc from the current state. The first
  argument bounds the recursion depth, as for \<open>calculate_profit\<close>. \<open>mx\<close> is
  \<^verbatim>\<open>max_tot_length\<close>, a variable of the enclosing \<^verbatim>\<open>create_network\<close>.
\<close>

fun direct_network ::
  "nat \<Rightarrow> real \<Rightarrow> node list \<Rightarrow> arc list \<Rightarrow> int \<Rightarrow> py_error + (node list \<times> arc list)" where
  "direct_network 0 mx nodes network index = Inl RecursionError"
| "direct_network (Suc depth) mx nodes network index =
     for_each
       (\<lambda>i (ns, nw).
          case py_get ns index of
            Inl e \<Rightarrow> Inl e
          | Inr cur \<Rightarrow>
              (case match_arc cur (nw ! i) of
                 None \<Rightarrow> Inr (ns, nw)
               | Some a \<Rightarrow>
                   let a1 = start_arc cur a
                   in (case first_node_at ns (a_xe a1) (a_ye a1) of
                         None \<Rightarrow> Inr (ns, nw[i := a1])
                       | Some j \<Rightarrow>
                           direct_network depth mx
                             (ns[j := reach_node cur a1 (ns ! j)])
                             (nw[i := end_arc mx cur (ns ! j) a1])
                             (n_index (ns ! j)))))
       [0..<length network] (nodes, network)"

text \<open>
  Lines 231-238 of \<^verbatim>\<open>create_network\<close>: the network is directed from node 0, then
  every arc's index is appended to the node at \<^verbatim>\<open>arc[5]\<close> and to the node at
  \<^verbatim>\<open>arc[6]\<close>.
\<close>

definition append_ref :: "int \<Rightarrow> node \<Rightarrow> node" where
  "append_ref i nd = nd\<lparr>arc_refs := arc_refs nd @ [i]\<rparr>"

definition attach_step :: "arc \<Rightarrow> node list \<Rightarrow> py_error + node list" where
  "attach_step a nodes =
     (case py_update nodes (node_start a) (append_ref (a_index a)) of
        Inl e \<Rightarrow> Inl e
      | Inr nodes1 \<Rightarrow> py_update nodes1 (node_end a) (append_ref (a_index a)))"

definition direct_and_attach ::
  "nat \<Rightarrow> real \<Rightarrow> node list \<Rightarrow> arc list \<Rightarrow> py_error + (arc list \<times> node list)" where
  "direct_and_attach depth mx nodes network =
     (case direct_network depth mx nodes network 0 of
        Inl e \<Rightarrow> Inl e
      | Inr (ns, nw) \<Rightarrow>
          (case for_each attach_step nw ns of
             Inl e \<Rightarrow> Inl e
           | Inr ns' \<Rightarrow> Inr (nw, ns')))"

section \<open>Example villages\<close>

text \<open>
  A generator at the origin and three buildings, as \<^verbatim>\<open>create_network\<close> hands them to
  \<^verbatim>\<open>direct_network\<close>: distances and flags at 0, arcs undirected with both node
  fields at -99.
\<close>

definition new_node :: "int \<Rightarrow> int \<Rightarrow> int \<Rightarrow> int \<Rightarrow> node" where
  "new_node i x y a =
     \<lparr>n_index = i, n_x = x, n_y = y, area_m2 = a, marg_dist = 0, tot_dist = 0,
      connected = 0, arc_refs = []\<rparr>"

definition new_arc :: "int \<Rightarrow> int \<Rightarrow> int \<Rightarrow> int \<Rightarrow> int \<Rightarrow> real \<Rightarrow> arc" where
  "new_arc i x1 y1 x2 y2 l =
     \<lparr>a_index = i, a_xs = x1, a_ys = y1, a_xe = x2, a_ye = y2, node_start = - 99,
      node_end = - 99, directed = 0, arc_length = l, enabled = 1\<rparr>"

definition raw_nodes :: "node list" where
  "raw_nodes = [new_node 0 0 0 0, new_node 1 3 4 100, new_node 2 3 0 40, new_node 3 6 4 50]"

definition raw_network :: "arc list" where
  "raw_network = [new_arc 0 6 4 3 4 3, new_arc 1 3 4 0 0 5, new_arc 2 0 0 3 0 3]"

text \<open>The same village after \<^verbatim>\<open>create_network\<close>, with no arc beyond reach.\<close>

definition village_nodes :: "node list" where
  "village_nodes =
     [\<lparr>n_index = 0, n_x = 0, n_y = 0, area_m2 = 0, marg_dist = 0, tot_dist = 0,
       connected = 0, arc_refs = [1, 2]\<rparr>,
      \<lparr>n_index = 1, n_x = 3, n_y = 4, area_m2 = 100, marg_dist = 5, tot_dist = 5,
       connected = 0, arc_refs = [0, 1]\<rparr>,
      \<lparr>n_index = 2, n_x = 3, n_y = 0, area_m2 = 40, marg_dist = 3, tot_dist = 3,
       connected = 0, arc_refs = [2]\<rparr>,
      \<lparr>n_index = 3, n_x = 6, n_y = 4, area_m2 = 50, marg_dist = 3, tot_dist = 8,
       connected = 0, arc_refs = [0]\<rparr>]"

definition village_network :: "arc list" where
  "village_network =
     [\<lparr>a_index = 0, a_xs = 3, a_ys = 4, a_xe = 6, a_ye = 4, node_start = 1,
       node_end = 3, directed = 1, arc_length = 3, enabled = 1\<rparr>,
      \<lparr>a_index = 1, a_xs = 0, a_ys = 0, a_xe = 3, a_ye = 4, node_start = 0,
       node_end = 1, directed = 1, arc_length = 5, enabled = 1\<rparr>,
      \<lparr>a_index = 2, a_xs = 0, a_ys = 0, a_xe = 3, a_ye = 0, node_start = 0,
       node_end = 2, directed = 1, arc_length = 3, enabled = 1\<rparr>]"

definition fair_econ :: econ where
  "fair_econ =
     \<lparr>demand_per_person_kwh_month = 120, tariff = 1, gen_cost_per_kw = 10, cost_wire = 2,
      cost_connection = 7, opex_ratio = 1 / 10, years = 3, discount_rate = 0\<rparr>"

section \<open>The discounted cash flow of the specification\<close>

text \<open>
  The specification's formula: the sum over the years \<open>t = 0, ..., n - 1\<close> of
  \<open>flow t / (1 + rate) ^ t\<close>, where the flow of year 0 is \<open>- capex\<close> and the flow of
  every later year is \<open>income - opex\<close>.
\<close>

definition spec_npv :: "nat \<Rightarrow> real \<Rightarrow> real \<Rightarrow> real \<Rightarrow> real \<Rightarrow> real" where
  "spec_npv n rate capex income opex =
     (\<Sum>t = 0..<n. (if t = 0 then - capex else income - opex) / (1 + rate) ^ t)"

text \<open>A generator and a single building, directed and attached.\<close>

definition pair_nodes :: "node list" where
  "pair_nodes =
     [\<lparr>n_index = 0, n_x = 0, n_y = 0, area_m2 = 0, marg_dist = 0, tot_dist = 0,
       connected = 0, arc_refs = [0]\<rparr>,
      \<lparr>n_index = 1, n_x = 3, n_y = 4, area_m2 = 100, marg_dist = 5, tot_dist = 5,
       connected = 0, arc_refs = [0]\<rparr>]"

definition pair_network :: "arc list" where
  "pair_network =
     [\<lparr>a_index = 0, a_xs = 0, a_ys = 0, a_xe = 3, a_ye = 4, node_start = 0,
       node_end = 1, directed = 1, arc_length = 5, enabled = 1\<rparr>]"

text \<open>The economics of \<open>fair_econ\<close> with a generator at a million per kW.\<close>

definition dear_econ :: econ where
  "dear_econ =
     \<lparr>demand_per_person_kwh_month = 120, tariff = 1, gen_cost_per_kw = 1000000, cost_wire = 2,
      cost_connection = 7, opex_ratio = 1 / 10, years = 3, discount_rate = 0\<rparr>"

text \<open>
  Economics in which only the generator costs anything, over a single year: the NPV is
  then minus the capex, which is the generator's price.
\<close>

definition generator_only_econ :: econ where
  "generator_only_econ =
     \<lparr>demand_per_person_kwh_month = 120, tariff = 1, gen_cost_per_kw = 10, cost_wire = 0,
      cost_connection = 0, opex_ratio = 0, years = 1, discount_rate = 0\<rparr>"

text \<open>The village with arc 1, from the generator to building 1, disabled.\<close>

definition village_network_cut1 :: "arc list" where
  "village_network_cut1 = village_network[1 := (village_network ! 1)\<lparr>enabled := 0\<rparr>]"

text \<open>
  The village as \<^verbatim>\<open>create_network\<close> leaves it with \<^verbatim>\<open>max_length = 7\<close>: building 3
  is 8 m of wire from the generator, so arc 0 enters \<^verbatim>\<open>run_model\<close> disabled.
\<close>

definition village_network_reach7 :: "arc list" where
  "village_network_reach7 = village_network[0 := (village_network ! 0)\<lparr>enabled := 0\<rparr>]"

section \<open>Notions for the proofs about connectivity\<close>

text \<open>
  \<open>marks_more ns ns'\<close>: the list \<open>ns'\<close> is \<open>ns\<close> with the connected flag of some
  nodes set to 1. \<open>weaker nw' nw\<close>: the list \<open>nw'\<close> is \<open>nw\<close> with the enabled flag
  of some arcs set to 0. \<open>connect_step\<close> names the body of the loop of
  \<open>connect_houses\<close>. \<open>stranded_off nd nw\<close>: every arc that an unconnected node
  \<open>nd\<close> lists is disabled in \<open>nw\<close>.
\<close>

definition marks_more :: "node list \<Rightarrow> node list \<Rightarrow> bool" where
  "marks_more ns ns' \<longleftrightarrow>
     length ns' = length ns
     \<and> (\<forall>p<length ns. ns' ! p = ns ! p \<or> ns' ! p = (ns ! p)\<lparr>connected := 1\<rparr>)"

definition weaker :: "arc list \<Rightarrow> arc list \<Rightarrow> bool" where
  "weaker nw' nw \<longleftrightarrow>
     length nw' = length nw
     \<and> (\<forall>q<length nw. nw' ! q = nw ! q \<or> nw' ! q = (nw ! q)\<lparr>enabled := 0\<rparr>)"

definition connect_step ::
  "nat \<Rightarrow> int \<Rightarrow> arc \<Rightarrow> node list \<times> arc list \<Rightarrow> py_error + (node list \<times> arc list)" where
  "connect_step depth index =
     (\<lambda>a (ns, nw).
        if enabled a = 1 \<and> node_start a = index
        then connect_houses depth ns nw (node_end a)
        else Inr (ns, nw))"

definition stranded_off :: "node \<Rightarrow> arc list \<Rightarrow> bool" where
  "stranded_off nd nw \<longleftrightarrow>
     (connected nd = 0 \<longrightarrow>
        (\<exists>ps. resolve_refs (length nw) (arc_refs nd) = Inr ps
              \<and> (\<forall>p\<in>set ps. enabled (nw ! p) = 0)))"

text \<open>The village with arc 1 disabled, after the Connectivity Resolver has run.\<close>

definition resolved_nodes_cut1 :: "node list" where
  "resolved_nodes_cut1 =
     map (\<lambda>(n, c). n\<lparr>connected := c\<rparr>) (zip village_nodes [1, 0, 1, 0])"

definition resolved_network_cut1 :: "arc list" where
  "resolved_network_cut1 =
     map (\<lambda>(a, e). a\<lparr>enabled := e\<rparr>) (zip village_network [0, 0, 1])"

section \<open>Reachability through enabled arcs\<close>

text \<open>
  The specification's notion, written for the lists as \<open>connect_houses\<close> reads them:
  from the node at index \<open>i\<close> one step leads along an arc that the node lists, that
  is enabled and whose start is \<open>i\<close>, to the arc's end. \<open>refs\<close> is the list of the
  nodes' arc lists. \<open>reached nodes network i\<close> is the set of positions in \<open>nodes\<close>
  of the indices reached from \<open>i\<close>, and \<open>flagged M ns ns'\<close> says that \<open>ns'\<close> is
  \<open>ns\<close> with the connected flag set to 1 at exactly the positions of \<open>M\<close>.
\<close>

inductive reaches :: "int list list \<Rightarrow> arc list \<Rightarrow> int \<Rightarrow> int \<Rightarrow> bool"
  for refs :: "int list list" and network :: "arc list" where
  reaches_here: "reaches refs network i i"
| reaches_step:
    "py_pos (length refs) i = Some p \<Longrightarrow> r \<in> set (refs ! p)
       \<Longrightarrow> py_pos (length network) r = Some q
       \<Longrightarrow> enabled (network ! q) = 1 \<Longrightarrow> node_start (network ! q) = i
       \<Longrightarrow> reaches refs network (node_end (network ! q)) j
       \<Longrightarrow> reaches refs network i j"

definition reached :: "node list \<Rightarrow> arc list \<Rightarrow> int \<Rightarrow> nat set" where
  "reached nodes network i =
     {p. \<exists>j. reaches (map arc_refs nodes) network i j \<and> py_pos (length nodes) j = Some p}"

definition flagged :: "nat set \<Rightarrow> node list \<Rightarrow> node list \<Rightarrow> bool" where
  "flagged M ns ns' \<longleftrightarrow>
     length ns' = length ns
     \<and> (\<forall>p<length ns. ns' ! p = (if p \<in> M then (ns ! p)\<lparr>connected := 1\<rparr> else ns ! p))"

text \<open>
  The node list that a first call of \<^verbatim>\<open>run_model\<close> (NPV mode, on the village with
  a reach of 7) returns, and the network that a second call, in coverage mode on the
  lists returned, leaves.
\<close>

definition rerun_nodes :: "node list" where
  "rerun_nodes = map (\<lambda>(n, c). n\<lparr>connected := c\<rparr>) (zip village_nodes [1, 1, 1, 0])"

definition rerun_network :: "arc list" where
  "rerun_network = map (\<lambda>(a, e). a\<lparr>enabled := e\<rparr>) (zip village_network [0, 1, 0])"

section \<open>Notions for the statements about direct_network\<close>

text \<open>
  The coordinates of a node and of the two ends of an arc; \<open>edge\<close> is an arc as an
  undirected pair of points. \<open>linked network c d\<close>: the point \<open>d\<close> can be reached
  from the point \<open>c\<close> along arcs of the network, in either direction. \<open>indexed nodes\<close>:
  every node's index field is its position in the list, as \<^verbatim>\<open>reset_index\<close> makes it.
  \<open>direct_step\<close> names the body of the loop of \<open>direct_network\<close>; \<open>same_frame\<close> and
  \<open>untouched_beyond\<close> are what the proofs carry through it.
\<close>

definition coords :: "node \<Rightarrow> int \<times> int" where
  "coords n = (n_x n, n_y n)"

definition a_start :: "arc \<Rightarrow> int \<times> int" where
  "a_start a = (a_xs a, a_ys a)"

definition a_end :: "arc \<Rightarrow> int \<times> int" where
  "a_end a = (a_xe a, a_ye a)"

definition edge :: "arc \<Rightarrow> (int \<times> int) set" where
  "edge a = {a_start a, a_end a}"

inductive linked :: "arc list \<Rightarrow> int \<times> int \<Rightarrow> int \<times> int \<Rightarrow> bool"
  for network :: "arc list" where
  linked_here: "linked network c c"
| linked_step: "linked network c d \<Longrightarrow> a \<in> set network \<Longrightarrow> edge a = {d, e}
                  \<Longrightarrow> linked network c e"

definition direct_step ::
  "nat \<Rightarrow> real \<Rightarrow> int \<Rightarrow> nat \<Rightarrow> node list \<times> arc list \<Rightarrow> py_error + (node list \<times> arc list)" where
  "direct_step depth mx index =
     (\<lambda>i (ns, nw).
          case py_get ns index of
            Inl e \<Rightarrow> Inl e
          | Inr cur \<Rightarrow>
              (case match_arc cur (nw ! i) of
                 None \<Rightarrow> Inr (ns, nw)
               | Some a \<Rightarrow>
                   let a1 = start_arc cur a
                   in (case first_node_at ns (a_xe a1) (a_ye a1) of
                         None \<Rightarrow> Inr (ns, nw[i := a1])
                       | Some j \<Rightarrow>
                           direct_network depth mx
                             (ns[j := reach_node cur a1 (ns ! j)])
                             (nw[i := end_arc mx cur (ns ! j) a1])
                             (n_index (ns ! j)))))"

definition same_frame :: "node list \<times> arc list \<Rightarrow> node list \<times> arc list \<Rightarrow> bool" where
  "same_frame s s' \<longleftrightarrow>
     length (fst s') = length (fst s) \<and> length (snd s') = length (snd s)
     \<and> map coords (fst s') = map coords (fst s)
     \<and> map n_index (fst s') = map n_index (fst s)
     \<and> (\<forall>i<length (snd s). edge (snd s' ! i) = edge (snd s ! i)
                             \<and> arc_length (snd s' ! i) = arc_length (snd s ! i))"

definition untouched_beyond :: "int \<times> int \<Rightarrow> arc list \<Rightarrow> arc list \<Rightarrow> bool" where
  "untouched_beyond c nw nw' \<longleftrightarrow>
     (\<forall>i<length nw. \<not> linked nw c (a_start (nw ! i)) \<longrightarrow> nw' ! i = nw ! i)"

definition indexed :: "node list \<Rightarrow> bool" where
  "indexed nodes \<longleftrightarrow> (\<forall>p<length nodes. n_index (nodes ! p) = int p)"

text \<open>
  The raw village with a fourth arc that touches no node, and a list of 99 nodes of
  which only building 1 is wired to the generator, again with a stray second arc.
\<close>

definition stray_arc :: arc where
  "stray_arc = new_arc 3 10 10 11 11 1"

definition stray_network :: "arc list" where
  "stray_network = raw_network @ [stray_arc]"

definition directed_nodes :: "node list" where
  "directed_nodes = map (\<lambda>n. n\<lparr>arc_refs := []\<rparr>) village_nodes"

definition row_nodes :: "node list" where
  "row_nodes = map (\<lambda>k. new_node (int k) (int k) 0 (if k = 0 then 0 else 50)) [0..<99]"

definition row_network :: "arc list" where
  "row_network = [new_arc 0 0 0 1 0 1, new_arc 1 200 200 201 200 1]"

section \<open>A valid spanning tree, and what the proof about it carries\<close>

text \<open>
  The input that \<^verbatim>\<open>create_network\<close> means to hand to \<^verbatim>\<open>direct_network\<close>: at least
  the generator; every node's index field is its position; no two nodes share their
  coordinates (arcs find their nodes by coordinates); one arc fewer than nodes; every
  arc is still undirected and joins two nodes; and every node is linked to node 0.
\<close>

definition valid_tree :: "node list \<Rightarrow> arc list \<Rightarrow> bool" where
  "valid_tree nodes network \<longleftrightarrow>
     nodes \<noteq> [] \<and> indexed nodes \<and> distinct (map coords nodes)
     \<and> length network + 1 = length nodes
     \<and> (\<forall>a\<in>set network. directed a \<noteq> 1 \<and> edge a \<subseteq> coords ` set nodes)
     \<and> (\<forall>n\<in>set nodes. linked network (coords (nodes ! 0)) (coords n))"

text \<open>
  The invariant of \<open>direct_network\<close>, between the state \<open>(ns0, nw0)\<close> in which a call
  at node \<open>u\<close> starts and a later state \<open>(ns, nw)\<close>. \<open>newly\<close> are the arcs directed
  since; \<open>frozen\<close>: an arc already directed is never touched again; \<open>done_at c k\<close>:
  every arc before position \<open>k\<close> that touches the point \<open>c\<close> is directed;
  \<open>ends_done\<close>: every arc touching the end of a newly directed arc is directed;
  \<open>placed\<close>: a newly directed arc's node fields are the positions of the nodes at its
  two ends; \<open>rooted\<close>: it starts at \<open>u\<close> or at the end of another such arc;
  \<open>written\<close>: a node that has changed is the end of such an arc; \<open>good\<close>: the end
  node's distances are those of the start node plus the arc; \<open>clash\<close>: some newly
  directed arc ends at \<open>u\<close>, or two of them end at the same node (neither happens in a
  tree); \<open>measured\<close>: unless there is a clash, every newly directed arc is good.
\<close>

definition newly :: "arc list \<Rightarrow> arc list \<Rightarrow> nat set" where
  "newly nw0 nw = {m. m < length nw0 \<and> directed (nw0 ! m) \<noteq> 1 \<and> directed (nw ! m) = 1}"

definition frozen :: "arc list \<Rightarrow> arc list \<Rightarrow> bool" where
  "frozen nw0 nw \<longleftrightarrow> (\<forall>i<length nw0. directed (nw0 ! i) = 1 \<longrightarrow> nw ! i = nw0 ! i)"

definition done_at :: "int \<times> int \<Rightarrow> nat \<Rightarrow> arc list \<Rightarrow> bool" where
  "done_at c k nw \<longleftrightarrow> (\<forall>i<k. c \<in> edge (nw ! i) \<longrightarrow> directed (nw ! i) = 1)"

definition ends_done :: "arc list \<Rightarrow> arc list \<Rightarrow> bool" where
  "ends_done nw0 nw \<longleftrightarrow> (\<forall>m\<in>newly nw0 nw. done_at (a_end (nw ! m)) (length nw0) nw)"

definition placed :: "node list \<Rightarrow> arc list \<Rightarrow> arc list \<Rightarrow> bool" where
  "placed ns0 nw0 nw \<longleftrightarrow>
     (\<forall>m\<in>newly nw0 nw. \<exists>p<length ns0. \<exists>j<length ns0.
         node_start (nw ! m) = int p \<and> node_end (nw ! m) = int j
         \<and> coords (ns0 ! p) = a_start (nw ! m) \<and> coords (ns0 ! j) = a_end (nw ! m))"

definition rooted :: "nat \<Rightarrow> arc list \<Rightarrow> arc list \<Rightarrow> bool" where
  "rooted u nw0 nw \<longleftrightarrow>
     (\<forall>m\<in>newly nw0 nw. node_start (nw ! m) = int u
         \<or> (\<exists>m'\<in>newly nw0 nw. node_start (nw ! m) = node_end (nw ! m')))"

definition written :: "node list \<Rightarrow> node list \<Rightarrow> arc list \<Rightarrow> arc list \<Rightarrow> bool" where
  "written ns0 ns nw0 nw \<longleftrightarrow>
     (\<forall>j<length ns0. ns ! j \<noteq> ns0 ! j \<longrightarrow> (\<exists>m\<in>newly nw0 nw. node_end (nw ! m) = int j))"

definition good :: "node list \<Rightarrow> arc \<Rightarrow> bool" where
  "good ns a \<longleftrightarrow>
     tot_dist (ns ! nat (node_end a)) = tot_dist (ns ! nat (node_start a)) + arc_length a
     \<and> marg_dist (ns ! nat (node_end a)) = arc_length a"

definition clash :: "nat \<Rightarrow> nat set \<Rightarrow> arc list \<Rightarrow> bool" where
  "clash u N nw \<longleftrightarrow>
     (\<exists>m\<in>N. node_end (nw ! m) = int u)
     \<or> (\<exists>m\<in>N. \<exists>m'\<in>N. m \<noteq> m' \<and> node_end (nw ! m) = node_end (nw ! m'))"

definition measured :: "nat \<Rightarrow> node list \<Rightarrow> arc list \<Rightarrow> arc list \<Rightarrow> bool" where
  "measured u ns nw0 nw \<longleftrightarrow>
     clash u (newly nw0 nw) nw \<or> (\<forall>m\<in>newly nw0 nw. good ns (nw ! m))"

definition progress ::
  "nat \<Rightarrow> nat \<Rightarrow> node list \<times> arc list \<Rightarrow> node list \<times> arc list \<Rightarrow> bool" where
  "progress u k s0 s \<longleftrightarrow>
     same_frame s0 s
     \<and> frozen (snd s0) (snd s)
     \<and> done_at (coords (fst s0 ! u)) k (snd s)
     \<and> ends_done (snd s0) (snd s)
     \<and> placed (fst s0) (snd s0) (snd s)
     \<and> rooted u (snd s0) (snd s)
     \<and> written (fst s0) (fst s) (snd s0) (snd s)
     \<and> measured u (fst s) (snd s0) (snd s)"

definition shape :: "node list \<times> arc list \<Rightarrow> bool" where
  "shape s \<longleftrightarrow>
     indexed (fst s) \<and> distinct (map coords (fst s))
     \<and> (\<forall>a\<in>set (snd s). edge a \<subseteq> coords ` set (fst s))"

section \<open>Frame property of calculate_profit\<close>

lemma for_each_invariant:
  assumes "for_each body xs s = Inr r"
    and "I s"
    and "\<And>x t t'. x \<in> set xs \<Longrightarrow> I t \<Longrightarrow> body x t = Inr t' \<Longrightarrow> I t'"
  shows "I r"
  using assms
proof (induction xs arbitrary: s)
  case Nil
  then show ?case by simp
next
  case (Cons x xs)
  from Cons.prems(1) obtain s1 where s1: "body x s = Inr s1"
    and rest: "for_each body xs s1 = Inr r"
    by (auto split: sum.splits)
  have s1_inv: "I s1"
    using Cons.prems(3)[of x s s1] Cons.prems(2) s1 by simp
  show ?case
  proof (rule Cons.IH[OF rest s1_inv])
    fix y t t'
    assume "y \<in> set xs" "I t" "body y t = Inr t'"
    then show "I t'"
      using Cons.prems(3)[of y t t'] by simp
  qed
qed

lemma calculate_profit_frame:
  "calculate_profit depth P nodes network index d cost inc = Inr r
     \<Longrightarrow> fst (snd (snd r)) = nodes \<and> snd (snd (snd r)) = network"
proof (induction depth arbitrary: nodes network index cost inc r)
  case 0
  then show ?case by simp
next
  case (Suc depth)
  from Suc.prems obtain nd where nd: "py_get nodes index = Inr nd"
    by (cases "py_get nodes index") auto
  from Suc.prems nd obtain conn where conn: "lookup_arcs network (arc_refs nd) = Inr conn"
    by (cases "lookup_arcs network (arc_refs nd)") (auto simp: Let_def)
  from Suc.prems nd conn have
    run: "for_each
            (\<lambda>a (c, i, ns, nw).
               if enabled a = 1 \<and> a_index a \<noteq> d \<and> node_start a = index
               then calculate_profit depth P ns nw (node_end a) d c i
               else Inr (c, i, ns, nw))
            conn
            (cost + (cost_wire P * marg_dist nd + cost_connection P),
             inc + real_of_int (area_m2 nd) * num_people_per_m2
                     * demand_per_person_kwh_month P * tariff P,
             nodes, network) = Inr r"
    by (simp add: Let_def)
  show ?case
  proof (rule for_each_invariant[OF run,
        where I = "\<lambda>t. fst (snd (snd t)) = nodes \<and> snd (snd (snd t)) = network"])
    show "fst (snd (snd (cost + (cost_wire P * marg_dist nd + cost_connection P),
             inc + real_of_int (area_m2 nd) * num_people_per_m2
                     * demand_per_person_kwh_month P * tariff P,
             nodes, network))) = nodes \<and>
          snd (snd (snd (cost + (cost_wire P * marg_dist nd + cost_connection P),
             inc + real_of_int (area_m2 nd) * num_people_per_m2
                     * demand_per_person_kwh_month P * tariff P,
             nodes, network))) = network"
      by simp
  next
    fix a :: arc and t t' :: "real \<times> real \<times> node list \<times> arc list"
    assume inv: "fst (snd (snd t)) = nodes \<and> snd (snd (snd t)) = network"
      and step: "(case t of
               (c, i, ns, nw) \<Rightarrow>
                 if enabled a = 1 \<and> a_index a \<noteq> d \<and> node_start a = index
                 then calculate_profit depth P ns nw (node_end a) d c i
                 else Inr (c, i, ns, nw)) = Inr t'"
    obtain c i ns nw where t: "t = (c, i, ns, nw)"
      by (cases t) auto
    show "fst (snd (snd t')) = nodes \<and> snd (snd (snd t')) = network"
      using inv step t Suc.IH[of ns nw "node_end a" c i t'] by (auto split: if_splits)
  qed
qed

text \<open>
  Claim C7. For every starting node index, every hypothetically disabled arc index
  and every starting cost and income accumulators, a call of calculate_profit that
  returns hands back the nodes list and the network list it was given, unchanged in
  every node field and every arc field (the enabled flags included).
\<close>

theorem calculate_profit_leaves_lists_unchanged:
  "calculate_profit depth P nodes network index disabled_arc_index cost income_per_month
      = Inr (cost', income', nodes', network')
   \<Longrightarrow> nodes' = nodes \<and> network' = network"
  using calculate_profit_frame[of depth P nodes network index disabled_arc_index cost
      income_per_month "(cost', income', nodes', network')"]
  by simp

theorem calculate_profit_leaves_lists_unchanged_witness:
  "calculate_profit 4 fair_econ village_nodes village_network 0 1 0 0
      = Inr (20, 720, village_nodes, village_network)
   \<and> (village_nodes = village_nodes \<and> village_network = village_network)"
proof -
  have run: "calculate_profit 4 fair_econ village_nodes village_network 0 1 0 0
      = Inr (20, 720, village_nodes, village_network)"
    by code_simp
  show ?thesis
    by (rule conjI[OF run calculate_profit_leaves_lists_unchanged[OF run]])
qed

section \<open>Net present value against the specification's formula\<close>

lemma np_npv_flows:
  assumes "0 < n"
  shows "np_npv rate ((replicate n v)[0 := w])
           = (\<Sum>t = 0..<n. (if t = 0 then w else v) / (1 + rate) ^ t)"
proof -
  have "np_npv rate ((replicate n v)[0 := w])
          = (\<Sum>t = 0..<n. ((replicate n v)[0 := w]) ! t / (1 + rate) ^ t)"
    by (simp add: np_npv_def interv_sum_list_conv_sum_set_nat)
  also have "\<dots> = (\<Sum>t = 0..<n. (if t = 0 then w else v) / (1 + rate) ^ t)"
    by (rule sum.cong) (auto simp: nth_list_update)
  finally show ?thesis .
qed

lemma cash_flow_npv_spec:
  assumes "0 < years P"
  shows "cash_flow_npv P capex income
           = Inr (spec_npv (nat (years P)) (discount_rate P) capex income (opex_ratio P * capex))"
proof -
  have pos: "0 < nat (years P)"
    using assms by simp
  then obtain m where m: "nat (years P) = Suc m"
    by (cases "nat (years P)") auto
  have "cash_flow_npv P capex income
          = Inr (np_npv (discount_rate P)
                   ((replicate (nat (years P)) (income - opex_ratio P * capex))[0 := - capex]))"
    using assms m by (simp add: cash_flow_npv_def np_ones_times_def set_first_def Let_def)
  then show ?thesis
    using np_npv_flows[OF pos] by (simp add: spec_npv_def)
qed

text \<open>With a project of no years, or of a negative number of years, no NPV is computed.\<close>

lemma cash_flow_npv_needs_years:
  "cash_flow_npv P capex income = Inr v \<Longrightarrow> 0 < years P"
  by (cases "years P < 0"; cases "nat (years P)")
     (auto simp: cash_flow_npv_def np_ones_times_def set_first_def Let_def)

text \<open>
  Claim C5. For a project of at least one year (with fewer the code raises before any
  NPV exists) and a discount rate other than -1, every NPV that run_model computes is
  the specification's discounted cash flow. For a candidate of a scan, capex is
  cost_gen plus the cost that calculate_profit returns and income is twelve times
  the monthly income it returns; for the report, capex is the generator cost plus the
  connection and wire costs of the final state and income is twelve times the monthly
  income of the connected nodes; in both, opex is opex_ratio times capex.
\<close>

theorem npv_is_discounted_cash_flow:
  assumes "0 < years P" and "discount_rate P \<noteq> - 1"
  shows "(calculate_profit depth P nodes network 0 cut_index 0 0
            = Inr (cost, income_per_month, ns, nw)
          \<longrightarrow> evaluate_cut depth P cg nodes network cut_index
                = Inr (spec_npv (nat (years P)) (discount_rate P) (cg + cost)
                         (income_per_month * 12) (opex_ratio P * (cg + cost)), ns, nw))
       \<and> report_npv P nodes network
           = Inr (spec_npv (nat (years P)) (discount_rate P) (report_capex P nodes network)
                    (report_income_per_month P nodes * 12)
                    (opex_ratio P * report_capex P nodes network))"
  using assms(1) by (simp add: evaluate_cut_def report_npv_def cash_flow_npv_spec Let_def)

theorem npv_is_discounted_cash_flow_witness:
  "(0 < years fair_econ \<and> discount_rate fair_econ \<noteq> - 1)
   \<and> calculate_profit 4 fair_econ village_nodes village_network 0 1 0 0
       = Inr (20, 720, village_nodes, village_network)
   \<and> evaluate_cut 4 fair_econ 285 village_nodes village_network 1
       = Inr (spec_npv 3 0 305 8640 (61 / 2), village_nodes, village_network)
   \<and> report_npv fair_econ village_nodes village_network = Inr (spec_npv 3 0 15 0 (3 / 2))"
proof -
  have hyps: "0 < years fair_econ" "discount_rate fair_econ \<noteq> - 1"
    by (simp_all add: fair_econ_def)
  have run: "calculate_profit 4 fair_econ village_nodes village_network 0 1 0 0
      = Inr (20, 720, village_nodes, village_network)"
    by code_simp
  have capex: "report_capex fair_econ village_nodes village_network = 15"
    by code_simp
  have income: "report_income_per_month fair_econ village_nodes = 0"
    by code_simp
  have pars: "nat (years fair_econ) = 3" "discount_rate fair_econ = 0"
    "opex_ratio fair_econ = 1 / 10"
    by (simp_all add: fair_econ_def)
  show ?thesis
    using npv_is_discounted_cash_flow[OF hyps, of 4 village_nodes village_network 1 20 720
        village_nodes village_network 285] hyps run
    by (simp add: capex income pars)
qed

section \<open>The sentinel of the pruning loops\<close>

lemma dear_cost_gen: "cost_gen dear_econ pair_nodes = 15000000"
  by code_simp

lemma dear_npv_scan:
  "npv_scan 3 dear_econ 15000000 (False, sentinel_npv, None, pair_nodes, pair_network)
     = Inr (False, sentinel_npv, None, pair_nodes, pair_network)"
  by code_simp

lemma dear_coverage_scan:
  "coverage_scan 3 dear_econ 15000000 (False, sentinel_npv, None, pair_nodes, pair_network)
     = Inr (False, sentinel_npv, None, pair_nodes, pair_network)"
  by code_simp

lemma pair_coverage: "actual_coverage pair_network (length pair_network) = Inr 1"
  by code_simp

lemma dear_coverage_loop:
  "coverage_mode_loop rounds 3 dear_econ 15000000 (1 / 2) (length pair_network) None
     pair_nodes pair_network = None"
proof (induction rounds)
  case 0
  then show ?case by simp
next
  case (Suc rounds)
  then show ?case by (simp add: dear_coverage_scan pair_coverage)
qed

text \<open>
  Claim C2, at a failing input. One building, a generator at a million per kW and a
  target coverage of one half: the only candidate's NPV is below -9999999, the value
  best_npv starts every round from, so no round disables the arc, the coverage stays
  at 1 and the coverage loop has not left after any number of rounds.
\<close>

theorem coverage_loop_never_leaves:
  "run_model rounds 3 pair_network pair_nodes dear_econ (1 / 2) = None"
  by (simp add: run_model_def prune_network_def dear_cost_gen dear_coverage_loop)

text \<open>
  Claim C3, at a failing input. With the same village and economics in NPV mode, the
  first round finds no candidate above -9999999: the scan ends with found false, the
  loop leaves at once, and the only arc of the network is still enabled.
\<close>

theorem first_round_disables_nothing:
  "npv_scan 3 dear_econ (cost_gen dear_econ pair_nodes)
       (False, sentinel_npv, None, pair_nodes, pair_network)
     = Inr (False, sentinel_npv, None, pair_nodes, pair_network)
   \<and> prune_network (Suc rounds) 3 dear_econ (- 1) pair_nodes pair_network
       = Some (Inr (pair_nodes, pair_network))
   \<and> map enabled pair_network = [1]"
  by (simp add: prune_network_def dear_cost_gen dear_npv_scan) (simp add: pair_network_def)

section \<open>The generator in the scans and in the report\<close>

text \<open>
  Claim C4, at a failing input. With arc 1 of the village treated as disabled, only
  building 2 (40 m2, 6 kW, a generator of 60) is still connected. The scan prices the
  candidate with cost_gen, computed once from all four nodes (190 m2, 28.5 kW, 285):
  its NPV is -285. The report of that very state, arc 1 disabled, sizes the generator
  from the connected nodes: its NPV is -60.
\<close>

theorem scan_prices_generator_for_all_nodes:
  "cost_gen generator_only_econ village_nodes = 285
   \<and> evaluate_cut 4 generator_only_econ (cost_gen generator_only_econ village_nodes)
         village_nodes village_network 1
       = Inr (- 285, village_nodes, village_network)
   \<and> (case resolve_connectivity 4 village_nodes village_network_cut1 of
         Inl e \<Rightarrow> False
       | Inr (ns, nw) \<Rightarrow>
           map connected ns = [1, 0, 1, 0]
           \<and> report_gen_size_kw generator_only_econ ns * gen_cost_per_kw generator_only_econ = 60
           \<and> report_npv generator_only_econ ns nw = Inr (- 60))"
  by code_simp

section \<open>What a round of the NPV mode weighs\<close>

lemma evaluate_cut_frame:
  assumes "evaluate_cut depth P cg nodes network c = Inr (v, ns, nw)"
  shows "ns = nodes \<and> nw = network"
proof -
  from assms obtain cost inc where
    run: "calculate_profit depth P nodes network 0 c 0 0 = Inr (cost, inc, ns, nw)"
    by (auto simp: evaluate_cut_def Let_def split: sum.splits)
  show ?thesis
    using calculate_profit_frame[OF run] by simp
qed

lemma npv_scan_step_cases:
  assumes "npv_scan_step depth P cg a (f, b, i, nodes, network) = Inr t"
  obtains v where "evaluate_cut depth P cg nodes network (a_index a) = Inr (v, nodes, network)"
    and "t = (if v > b then (True, v, Some (a_index a), nodes, network)
              else (f, b, i, nodes, network))"
proof -
  from assms obtain v ns nw where
    ev: "evaluate_cut depth P cg nodes network (a_index a) = Inr (v, ns, nw)"
    and t: "t = (if v > b then (True, v, Some (a_index a), ns, nw) else (f, b, i, ns, nw))"
    by (auto simp: npv_scan_step_def split: sum.splits if_splits)
  from evaluate_cut_frame[OF ev] have "ns = nodes" "nw = network"
    by simp_all
  with ev t that show ?thesis
    by simp
qed

lemma npv_scan_loop:
  assumes "for_each (npv_scan_step depth P cg) arcs (f, b, i, nodes, network)
             = Inr (f', b', i', ns', nw')"
  shows "ns' = nodes \<and> nw' = network \<and> b \<le> b'
         \<and> (\<forall>a\<in>set arcs. \<exists>v. evaluate_cut depth P cg nodes network (a_index a)
                                   = Inr (v, nodes, network) \<and> v \<le> b')
         \<and> (if b < b'
              then f' \<and> (\<exists>a\<in>set arcs. i' = Some (a_index a)
                            \<and> evaluate_cut depth P cg nodes network (a_index a)
                                = Inr (b', nodes, network))
              else f' = f \<and> i' = i)"
  using assms
proof (induction arcs arbitrary: f b i)
  case Nil
  then show ?case by simp
next
  case (Cons a arcs)
  from Cons.prems obtain t where
    step: "npv_scan_step depth P cg a (f, b, i, nodes, network) = Inr t"
    and rest: "for_each (npv_scan_step depth P cg) arcs t = Inr (f', b', i', ns', nw')"
    by (auto split: sum.splits)
  from step obtain v where
    ev: "evaluate_cut depth P cg nodes network (a_index a) = Inr (v, nodes, network)"
    and t: "t = (if v > b then (True, v, Some (a_index a), nodes, network)
                 else (f, b, i, nodes, network))"
    by (rule npv_scan_step_cases)
  show ?case
  proof (cases "v > b")
    case True
    with t rest have
      "for_each (npv_scan_step depth P cg) arcs (True, v, Some (a_index a), nodes, network)
         = Inr (f', b', i', ns', nw')"
      by simp
    from Cons.IH[OF this] True ev show ?thesis
      by (auto split: if_splits)
  next
    case False
    with t rest have
      "for_each (npv_scan_step depth P cg) arcs (f, b, i, nodes, network)
         = Inr (f', b', i', ns', nw')"
      by simp
    from Cons.IH[OF this] False ev show ?thesis
      by (auto split: if_splits)
  qed
qed

text \<open>
  Claim C1, as the code has it. In the NPV mode every round evaluates the hypothetical
  removal of every arc of the network, whatever its enabled flag: the scan calls
  calculate_profit and computes an NPV for each arc before any test, so a round that
  completes has evaluated the candidate of every arc, enabled or not, and has left
  both lists as they were.
\<close>

theorem npv_scan_evaluates_every_arc:
  assumes "npv_scan depth P cg (False, best_npv, best_npv_index, nodes, network)
             = Inr (found, best_npv', best_npv_index', ns, nw)"
  shows "(\<forall>a\<in>set network. \<exists>v. evaluate_cut depth P cg nodes network (a_index a)
                                   = Inr (v, nodes, network))
       \<and> ns = nodes \<and> nw = network"
  using npv_scan_loop[of depth P cg network False best_npv best_npv_index nodes network
      found best_npv' best_npv_index' ns nw] assms
  by (auto simp: npv_scan_def split: if_splits)

lemma reach7_is_created:
  "direct_and_attach 5 7 raw_nodes raw_network = Inr (village_network_reach7, village_nodes)"
  by code_simp

lemma reach7_scan:
  "npv_scan 4 fair_econ 285 (False, sentinel_npv, None, village_nodes, village_network_reach7)
     = Inr (True, 300468 / 5, Some 0, village_nodes, village_network_reach7)"
  by code_simp

lemma reach7_arc0: "village_network_reach7 ! 0 \<in> set village_network_reach7"
  by (simp add: village_network_reach7_def village_network_def)

theorem npv_scan_evaluates_every_arc_witness:
  "npv_scan 4 fair_econ 285 (False, sentinel_npv, None, village_nodes, village_network_reach7)
     = Inr (True, 300468 / 5, Some 0, village_nodes, village_network_reach7)
   \<and> enabled (village_network_reach7 ! 0) = 0
   \<and> (\<exists>v. evaluate_cut 4 fair_econ 285 village_nodes village_network_reach7
               (a_index (village_network_reach7 ! 0))
             = Inr (v, village_nodes, village_network_reach7))"
proof -
  have off: "enabled (village_network_reach7 ! 0) = 0"
    by (simp add: village_network_reach7_def village_network_def)
  have evaluated:
    "\<exists>v. evaluate_cut 4 fair_econ 285 village_nodes village_network_reach7
            (a_index (village_network_reach7 ! 0))
          = Inr (v, village_nodes, village_network_reach7)"
    using npv_scan_evaluates_every_arc[OF reach7_scan] reach7_arc0 by blast
  show ?thesis
    by (rule conjI[OF reach7_scan conjI[OF off evaluated]])
qed

text \<open>
  Claim C1 as stated fails. In the village that create_network leaves with a maximum
  reach of 7, arc 0 is disabled before the first round. The first round of the NPV
  mode evaluates its hypothetical removal all the same (NPV 300468 / 5, that of the
  network as it stands) and selects it as the round's best cut: the comparison of
  line 340 lacks the test of the enabled flag that the coverage mode has at line 378.
\<close>

theorem npv_scan_selects_disabled_arc:
  "map a_index village_network_reach7 = [0, 1, 2]
   \<and> map enabled village_network_reach7 = [0, 1, 1]
   \<and> evaluate_cut 4 fair_econ (cost_gen fair_econ village_nodes) village_nodes
         village_network_reach7 0
       = Inr (300468 / 5, village_nodes, village_network_reach7)
   \<and> npv_scan 4 fair_econ (cost_gen fair_econ village_nodes)
         (False, sentinel_npv, None, village_nodes, village_network_reach7)
       = Inr (True, 300468 / 5, Some 0, village_nodes, village_network_reach7)"
  by code_simp

section \<open>The Connectivity Resolver\<close>

lemma py_pos_less: "py_pos n i = Some p \<Longrightarrow> p < n"
  by (auto simp: py_pos_def split: if_splits)

lemma resolve_refs_less:
  "resolve_refs n rs = Inr ps \<Longrightarrow> \<forall>p\<in>set ps. p < n"
  by (induction rs arbitrary: ps) (auto split: option.splits sum.splits dest: py_pos_less)

lemma marks_more_refl: "marks_more ns ns"
  by (simp add: marks_more_def)

lemma marks_more_trans:
  assumes "marks_more a b" "marks_more b c"
  shows "marks_more a c"
  unfolding marks_more_def
proof (intro conjI allI impI)
  show "length c = length a"
    using assms by (simp add: marks_more_def)
next
  fix p assume p: "p < length a"
  from assms p have ab: "b ! p = a ! p \<or> b ! p = (a ! p)\<lparr>connected := 1\<rparr>"
    and bc: "c ! p = b ! p \<or> c ! p = (b ! p)\<lparr>connected := 1\<rparr>"
    by (simp_all add: marks_more_def)
  then show "c ! p = a ! p \<or> c ! p = (a ! p)\<lparr>connected := 1\<rparr>"
    by auto
qed

lemma marks_more_update:
  "p < length ns \<Longrightarrow> marks_more ns (ns[p := (ns ! p)\<lparr>connected := 1\<rparr>])"
  by (auto simp: marks_more_def nth_list_update)

lemma connect_houses_marks_more:
  "connect_houses depth nodes network index = Inr (ns', nw')
     \<Longrightarrow> marks_more nodes ns' \<and> nw' = network"
proof (induction depth arbitrary: nodes network index ns' nw')
  case 0
  then show ?case by simp
next
  case (Suc depth)
  from Suc.prems obtain p where p: "py_pos (length nodes) index = Some p"
    by (cases "py_pos (length nodes) index") auto
  define nodes1 where "nodes1 = nodes[p := (nodes ! p)\<lparr>connected := 1\<rparr>]"
  from Suc.prems p obtain conn where
    conn: "lookup_arcs network (arc_refs (nodes1 ! p)) = Inr conn"
    by (cases "lookup_arcs network (arc_refs (nodes1 ! p))") (auto simp: Let_def nodes1_def)
  from Suc.prems p conn have
    run: "for_each
            (\<lambda>a (ns, nw).
               if enabled a = 1 \<and> node_start a = index
               then connect_houses depth ns nw (node_end a)
               else Inr (ns, nw))
            conn (nodes1, network) = Inr (ns', nw')"
    by (simp add: Let_def nodes1_def)
  have start: "marks_more nodes nodes1"
    unfolding nodes1_def by (rule marks_more_update) (rule py_pos_less[OF p])
  have "marks_more nodes (fst (ns', nw')) \<and> snd (ns', nw') = network"
  proof (rule for_each_invariant[OF run,
        where I = "\<lambda>t. marks_more nodes (fst t) \<and> snd t = network"])
    show "marks_more nodes (fst (nodes1, network)) \<and> snd (nodes1, network) = network"
      using start by simp
  next
    fix a :: arc and t t' :: "node list \<times> arc list"
    assume inv: "marks_more nodes (fst t) \<and> snd t = network"
      and step: "(case t of
               (ns, nw) \<Rightarrow>
                 if enabled a = 1 \<and> node_start a = index
                 then connect_houses depth ns nw (node_end a)
                 else Inr (ns, nw)) = Inr t'"
    obtain ns nw where t: "t = (ns, nw)"
      by (cases t) auto
    obtain ns2 nw2 where t': "t' = (ns2, nw2)"
      by (cases t') auto
    show "marks_more nodes (fst t') \<and> snd t' = network"
    proof (cases "enabled a = 1 \<and> node_start a = index")
      case True
      with step t t' have "connect_houses depth ns nw (node_end a) = Inr (ns2, nw2)"
        by simp
      from Suc.IH[OF this] inv t t' show ?thesis
        by (auto intro: marks_more_trans)
    next
      case False
      with step t inv show ?thesis by auto
    qed
  qed
  then show ?case by simp
qed

lemma connect_houses_Suc:
  "connect_houses (Suc depth) nodes network index =
     (case py_pos (length nodes) index of
        None \<Rightarrow> Inl IndexError
      | Some p \<Rightarrow>
          (case resolve_refs (length network) (arc_refs (nodes ! p)) of
             Inl e \<Rightarrow> Inl e
           | Inr ps \<Rightarrow>
               for_each (connect_step depth index) (map ((!) network) ps)
                 (nodes[p := (nodes ! p)\<lparr>connected := 1\<rparr>], network)))"
  by (auto simp: connect_step_def lookup_arcs_def Let_def dest: py_pos_less
      split: option.splits sum.splits)

lemma connect_houses_SucE:
  assumes "connect_houses (Suc depth) nodes network index = Inr r"
  obtains p ps where "py_pos (length nodes) index = Some p"
    and "resolve_refs (length network) (arc_refs (nodes ! p)) = Inr ps"
    and "for_each (connect_step depth index) (map ((!) network) ps)
           (nodes[p := (nodes ! p)\<lparr>connected := 1\<rparr>], network) = Inr r"
  using assms unfolding connect_houses_Suc
  by (auto split: option.splits sum.splits)

lemma connect_step_marks_more:
  assumes "connect_step depth index a (ns, nw) = Inr (ns', nw')"
  shows "marks_more ns ns' \<and> nw' = nw"
proof (cases "enabled a = 1 \<and> node_start a = index")
  case True
  with assms have "connect_houses depth ns nw (node_end a) = Inr (ns', nw')"
    by (simp add: connect_step_def)
  then show ?thesis
    by (rule connect_houses_marks_more)
next
  case False
  with assms show ?thesis
    by (auto simp: connect_step_def marks_more_refl)
qed

lemma connect_loop_marks_more:
  assumes "for_each (connect_step depth index) as (ns, nw) = Inr (ns', nw')"
  shows "marks_more ns ns' \<and> nw' = nw"
  using assms
proof (induction as arbitrary: ns)
  case Nil
  then show ?case by (simp add: marks_more_refl)
next
  case (Cons a as)
  from Cons.prems obtain t where step: "connect_step depth index a (ns, nw) = Inr t"
    and rest: "for_each (connect_step depth index) as t = Inr (ns', nw')"
    by (auto split: sum.splits)
  obtain ns1 nw1 where t: "t = (ns1, nw1)"
    by (cases t) auto
  from connect_step_marks_more[OF step[unfolded t]] have one: "marks_more ns ns1" "nw1 = nw"
    by simp_all
  from Cons.IH[of ns1] rest t one have "marks_more ns1 ns'" "nw' = nw"
    by simp_all
  with one show ?case
    by (auto intro: marks_more_trans)
qed

lemma weaker_enabled:
  assumes "weaker nw1 nw" "q < length nw" "enabled (nw1 ! q) = 1"
  shows "nw1 ! q = nw ! q"
proof -
  from assms(1,2) have "nw1 ! q = nw ! q \<or> nw1 ! q = (nw ! q)\<lparr>enabled := 0\<rparr>"
    by (simp add: weaker_def)
  with assms(3) show ?thesis by auto
qed

lemma weaker_ends:
  assumes "weaker nw1 nw" "q < length nw"
  shows "node_start (nw1 ! q) = node_start (nw ! q) \<and> node_end (nw1 ! q) = node_end (nw ! q)"
proof -
  from assms(1,2) have "nw1 ! q = nw ! q \<or> nw1 ! q = (nw ! q)\<lparr>enabled := 0\<rparr>"
    by (simp add: weaker_def)
  then show ?thesis by auto
qed

lemma marks_more_flag:
  assumes "marks_more ns ns'" "p < length ns" "connected (ns ! p) = 1"
  shows "connected (ns' ! p) = 1"
proof -
  from assms(1,2) have "ns' ! p = ns ! p \<or> ns' ! p = (ns ! p)\<lparr>connected := 1\<rparr>"
    by (simp add: marks_more_def)
  with assms(3) show ?thesis by auto
qed

lemma marks_more_refs:
  assumes "marks_more ns ns'" "p < length ns"
  shows "arc_refs (ns' ! p) = arc_refs (ns ! p)"
proof -
  from assms have "ns' ! p = ns ! p \<or> ns' ! p = (ns ! p)\<lparr>connected := 1\<rparr>"
    by (simp add: marks_more_def)
  then show ?thesis by auto
qed

lemma marks_more_length: "marks_more ns ns' \<Longrightarrow> length ns' = length ns"
  by (simp add: marks_more_def)

lemma connect_houses_again:
  assumes weak: "weaker nw1 network"
  shows "connect_houses depth nodes network index = Inr (ns', nw') \<Longrightarrow> marks_more ns' ns2
           \<Longrightarrow> connect_houses depth ns2 nw1 index = Inr (ns2, nw1)"
proof (induction depth arbitrary: nodes index ns' nw')
  case 0
  then show ?case by simp
next
  case (Suc depth)
  from Suc.prems(1) obtain p ps where p: "py_pos (length nodes) index = Some p"
    and ps: "resolve_refs (length network) (arc_refs (nodes ! p)) = Inr ps"
    and run: "for_each (connect_step depth index) (map ((!) network) ps)
           (nodes[p := (nodes ! p)\<lparr>connected := 1\<rparr>], network) = Inr (ns', nw')"
    by (rule connect_houses_SucE)
  have p_less: "p < length nodes"
    by (rule py_pos_less[OF p])
  from connect_houses_marks_more[OF Suc.prems(1)] have first: "marks_more nodes ns'" and nw': "nw' = network"
    by simp_all
  have len2: "length ns2 = length nodes"
    using first Suc.prems(2) by (simp add: marks_more_def)
  have all: "marks_more nodes ns2"
    using first Suc.prems(2) by (rule marks_more_trans)
  have refs2: "arc_refs (ns2 ! p) = arc_refs (nodes ! p)"
    using marks_more_refs[OF all p_less] .
  from connect_loop_marks_more[OF run] have "marks_more (nodes[p := (nodes ! p)\<lparr>connected := 1\<rparr>]) ns'"
    by simp
  from marks_more_flag[OF this] p_less have "connected (ns' ! p) = 1"
    by simp
  from marks_more_flag[OF Suc.prems(2) _ this] p_less first
  have flag2: "connected (ns2 ! p) = 1"
    by (simp add: marks_more_def)
  have same2: "ns2[p := (ns2 ! p)\<lparr>connected := 1\<rparr>] = ns2"
    using flag2 by (metis list_update_id node.surjective node.update_convs(7))
  have loop: "for_each (connect_step depth index) (map ((!) network) qs) (ns, network) = Inr (ns', nw')
      \<Longrightarrow> \<forall>q\<in>set qs. q < length network
      \<Longrightarrow> for_each (connect_step depth index) (map ((!) nw1) qs) (ns2, nw1) = Inr (ns2, nw1)"
    for qs ns
  proof (induction qs arbitrary: ns)
    case Nil
    then show ?case by simp
  next
    case (Cons q qs)
    from Cons.prems(1) obtain t where step: "connect_step depth index (network ! q) (ns, network) = Inr t"
      and rest: "for_each (connect_step depth index) (map ((!) network) qs) t = Inr (ns', nw')"
      by (auto split: sum.splits)
    obtain ns1 nwx where t: "t = (ns1, nwx)"
      by (cases t) auto
    from connect_step_marks_more[OF step[unfolded t]] have nwx: "nwx = network"
      by simp
    from connect_loop_marks_more[OF rest[unfolded t]] have later: "marks_more ns1 ns'"
      by simp
    have q: "q < length network"
      using Cons.prems(2) by simp
    have "connect_step depth index (nw1 ! q) (ns2, nw1) = Inr (ns2, nw1)"
    proof (cases "enabled (nw1 ! q) = 1 \<and> node_start (nw1 ! q) = index")
      case True
      then have same: "nw1 ! q = network ! q"
        using weaker_enabled[OF weak q] by simp
      with True step t nwx have "connect_houses depth ns network (node_end (network ! q)) = Inr (ns1, network)"
        by (simp add: connect_step_def)
      from Suc.IH[OF this marks_more_trans[OF later Suc.prems(2)]] True same
      show ?thesis
        by (simp add: connect_step_def)
    next
      case False
      then show ?thesis
        by (auto simp: connect_step_def)
    qed
    moreover have "for_each (connect_step depth index) (map ((!) nw1) qs) (ns2, nw1) = Inr (ns2, nw1)"
      using Cons.IH[of ns1] rest t nwx Cons.prems(2) by simp
    ultimately show ?case
      by simp
  qed
  have "for_each (connect_step depth index) (map ((!) nw1) ps) (ns2, nw1) = Inr (ns2, nw1)"
    using loop[OF run] resolve_refs_less[OF ps] by simp
  moreover have "length nw1 = length network"
    using weak by (simp add: weaker_def)
  ultimately show ?case
    using p ps len2 refs2 same2 by (simp add: connect_houses_Suc del: connect_houses.simps)
qed

lemma weaker_refl: "weaker nw nw"
  by (simp add: weaker_def)

lemma weaker_trans:
  assumes "weaker b a" "weaker c b"
  shows "weaker c a"
  unfolding weaker_def
proof (intro conjI allI impI)
  show "length c = length a"
    using assms by (simp add: weaker_def)
next
  fix q assume q: "q < length a"
  from assms q have ab: "b ! q = a ! q \<or> b ! q = (a ! q)\<lparr>enabled := 0\<rparr>"
    and bc: "c ! q = b ! q \<or> c ! q = (b ! q)\<lparr>enabled := 0\<rparr>"
    by (simp_all add: weaker_def)
  then show "c ! q = a ! q \<or> c ! q = (a ! q)\<lparr>enabled := 0\<rparr>"
    by auto
qed

lemma weaker_zero:
  assumes "weaker nw' nw" "q < length nw" "enabled (nw ! q) = 0"
  shows "enabled (nw' ! q) = 0"
proof -
  from assms(1,2) have "nw' ! q = nw ! q \<or> nw' ! q = (nw ! q)\<lparr>enabled := 0\<rparr>"
    by (simp add: weaker_def)
  with assms(3) show ?thesis by auto
qed

lemma weaker_length: "weaker nw' nw \<Longrightarrow> length nw' = length nw"
  by (simp add: weaker_def)

lemma disable_at_weaker: "weaker (disable_at p nw) nw"
proof -
  have "disable_at p nw ! q = nw ! q \<or> disable_at p nw ! q = (nw ! q)\<lparr>enabled := 0\<rparr>"
    if "q < length nw" for q
    using that by (cases "q = p") (simp_all add: disable_at_def)
  then show ?thesis
    by (simp add: weaker_def disable_at_def)
qed

lemma disable_at_zero: "p < length nw \<Longrightarrow> enabled (disable_at p nw ! p) = 0"
  by (simp add: disable_at_def)

lemma disable_at_id:
  assumes "enabled (nw ! p) = 0"
  shows "disable_at p nw = nw"
proof -
  have "(nw ! p)\<lparr>enabled := 0\<rparr> = nw ! p"
    using assms by (metis arc.surjective arc.update_convs(10))
  then show ?thesis
    by (simp add: disable_at_def)
qed

lemma fold_disable_at:
  assumes "\<forall>p\<in>set ps. p < length nw"
  shows "weaker (fold disable_at ps nw) nw
         \<and> (\<forall>p\<in>set ps. enabled (fold disable_at ps nw ! p) = 0)"
  using assms
proof (induction ps arbitrary: nw)
  case Nil
  then show ?case by (simp add: weaker_refl)
next
  case (Cons p ps)
  let ?nw1 = "disable_at p nw"
  have w1: "weaker ?nw1 nw"
    by (rule disable_at_weaker)
  have len1: "length ?nw1 = length nw"
    by (simp add: disable_at_def)
  from Cons.prems len1 have "\<forall>q\<in>set ps. q < length ?nw1"
    by simp
  from Cons.IH[OF this] have w2: "weaker (fold disable_at ps ?nw1) ?nw1"
    and z2: "\<forall>q\<in>set ps. enabled (fold disable_at ps ?nw1 ! q) = 0"
    by simp_all
  have "enabled (?nw1 ! p) = 0"
    using Cons.prems by (simp add: disable_at_zero)
  from weaker_zero[OF w2 _ this] Cons.prems len1
  have "enabled (fold disable_at ps ?nw1 ! p) = 0"
    by simp
  with z2 weaker_trans[OF w1 w2] show ?case
    by simp
qed

lemma fold_disable_at_id:
  "\<forall>p\<in>set ps. enabled (nw ! p) = 0 \<Longrightarrow> fold disable_at ps nw = nw"
  by (induction ps) (simp_all add: disable_at_id)

lemma stranded_off_weaker:
  assumes "stranded_off nd nw" "weaker nw' nw"
  shows "stranded_off nd nw'"
  unfolding stranded_off_def
proof
  assume "connected nd = 0"
  with assms(1) obtain ps where ps: "resolve_refs (length nw) (arc_refs nd) = Inr ps"
    and z: "\<forall>p\<in>set ps. enabled (nw ! p) = 0"
    by (auto simp: stranded_off_def)
  from resolve_refs_less[OF ps] z assms(2) have "\<forall>p\<in>set ps. enabled (nw' ! p) = 0"
    by (auto intro: weaker_zero)
  with ps weaker_length[OF assms(2)]
  show "\<exists>ps. resolve_refs (length nw') (arc_refs nd) = Inr ps \<and> (\<forall>p\<in>set ps. enabled (nw' ! p) = 0)"
    by auto
qed

lemma strand_step_result:
  assumes "strand_step nd nw = Inr nw'"
  shows "weaker nw' nw \<and> stranded_off nd nw'"
proof (cases "connected nd = 0")
  case True
  with assms obtain ps where ps: "resolve_refs (length nw) (arc_refs nd) = Inr ps"
    and nw': "nw' = fold disable_at ps nw"
    by (auto simp: strand_step_def split: sum.splits)
  from fold_disable_at[OF resolve_refs_less[OF ps]] nw'
  have w: "weaker nw' nw" and z: "\<forall>p\<in>set ps. enabled (nw' ! p) = 0"
    by simp_all
  with ps weaker_length[OF w] show ?thesis
    by (auto simp: stranded_off_def)
next
  case False
  with assms show ?thesis
    by (auto simp: strand_step_def stranded_off_def weaker_refl)
qed

lemma disable_stranded_result:
  assumes "for_each strand_step nodes nw = Inr nw'"
  shows "weaker nw' nw \<and> (\<forall>nd\<in>set nodes. stranded_off nd nw')"
  using assms
proof (induction nodes arbitrary: nw)
  case Nil
  then show ?case by (simp add: weaker_refl)
next
  case (Cons nd nodes)
  from Cons.prems obtain nw1 where step: "strand_step nd nw = Inr nw1"
    and rest: "for_each strand_step nodes nw1 = Inr nw'"
    by (auto split: sum.splits)
  from strand_step_result[OF step] have w1: "weaker nw1 nw" and o1: "stranded_off nd nw1"
    by simp_all
  from Cons.IH[OF rest] have w2: "weaker nw' nw1" and o2: "\<forall>n\<in>set nodes. stranded_off n nw'"
    by simp_all
  from stranded_off_weaker[OF o1 w2] o2 weaker_trans[OF w1 w2] show ?case
    by simp
qed

lemma strand_step_id:
  assumes "stranded_off nd nw"
  shows "strand_step nd nw = Inr nw"
proof (cases "connected nd = 0")
  case True
  with assms obtain ps where "resolve_refs (length nw) (arc_refs nd) = Inr ps"
    and "\<forall>p\<in>set ps. enabled (nw ! p) = 0"
    by (auto simp: stranded_off_def)
  with True show ?thesis
    by (simp add: strand_step_def fold_disable_at_id)
next
  case False
  then show ?thesis by (simp add: strand_step_def)
qed

lemma disable_stranded_id:
  "\<forall>nd\<in>set nodes. stranded_off nd nw \<Longrightarrow> for_each strand_step nodes nw = Inr nw"
  by (induction nodes) (simp_all add: strand_step_id)

text \<open>
  Claim C8. Whenever the Connectivity Resolver (connect_houses from node 0, then
  every arc listed by a node with connected == 0 disabled) returns, running it again
  on the state it left returns that very state: the same connected flags, the same
  enabled flags, and every other field as it was.
\<close>

theorem resolve_connectivity_idempotent:
  assumes "resolve_connectivity depth nodes network = Inr (ns, nw)"
  shows "resolve_connectivity depth ns nw = Inr (ns, nw)"
proof -
  from assms obtain nw0 where marked: "connect_houses depth nodes network 0 = Inr (ns, nw0)"
    and pruned: "disable_stranded ns nw0 = Inr nw"
    by (auto simp: resolve_connectivity_def split: sum.splits)
  from connect_houses_marks_more[OF marked] have nw0: "nw0 = network"
    by simp
  from disable_stranded_result[OF pruned[unfolded disable_stranded_def]]
  have weak: "weaker nw network" and off: "\<forall>nd\<in>set ns. stranded_off nd nw"
    using nw0 by simp_all
  have again: "connect_houses depth ns nw 0 = Inr (ns, nw)"
    using connect_houses_again[OF weak marked[unfolded nw0] marks_more_refl] .
  have "disable_stranded ns nw = Inr nw"
    unfolding disable_stranded_def by (rule disable_stranded_id[OF off])
  with again show ?thesis
    by (simp add: resolve_connectivity_def)
qed

theorem resolve_connectivity_idempotent_witness:
  "resolve_connectivity 4 village_nodes village_network_cut1
     = Inr (resolved_nodes_cut1, resolved_network_cut1)
   \<and> resolve_connectivity 4 resolved_nodes_cut1 resolved_network_cut1
     = Inr (resolved_nodes_cut1, resolved_network_cut1)"
proof -
  have run: "resolve_connectivity 4 village_nodes village_network_cut1
     = Inr (resolved_nodes_cut1, resolved_network_cut1)"
    by code_simp
  show ?thesis
    by (rule conjI[OF run resolve_connectivity_idempotent[OF run]])
qed

section \<open>What the report counts\<close>

lemma resolve_refs_set:
  "resolve_refs n rs = Inr ps \<Longrightarrow> set ps = {q. \<exists>r\<in>set rs. py_pos n r = Some q}"
  by (induction rs arbitrary: ps) (auto split: option.splits sum.splits)

lemma marks_more_map_refs:
  assumes "marks_more ns ns'"
  shows "map arc_refs ns' = map arc_refs ns"
proof (rule nth_equalityI)
  show "length (map arc_refs ns') = length (map arc_refs ns)"
    using assms by (simp add: marks_more_def)
next
  fix p assume "p < length (map arc_refs ns')"
  then have "p < length ns" "p < length ns'"
    using assms by (simp_all add: marks_more_def)
  then show "map arc_refs ns' ! p = map arc_refs ns ! p"
    using marks_more_refs[OF assms] by simp
qed

lemma reached_marks_more:
  "marks_more ns ns' \<Longrightarrow> reached ns' network i = reached ns network i"
  by (simp add: reached_def marks_more_map_refs marks_more_length)

lemma flagged_empty: "flagged {} ns ns"
  by (simp add: flagged_def)

lemma flagged_trans:
  assumes "flagged M a b" "flagged N b c"
  shows "flagged (M \<union> N) a c"
  unfolding flagged_def
proof (intro conjI allI impI)
  show "length c = length a"
    using assms by (simp add: flagged_def)
next
  fix p assume p: "p < length a"
  from assms p have ab: "b ! p = (if p \<in> M then (a ! p)\<lparr>connected := 1\<rparr> else a ! p)"
    and bc: "c ! p = (if p \<in> N then (b ! p)\<lparr>connected := 1\<rparr> else b ! p)"
    by (simp_all add: flagged_def)
  then show "c ! p = (if p \<in> M \<union> N then (a ! p)\<lparr>connected := 1\<rparr> else a ! p)"
    by auto
qed

lemma flagged_marks_more: "flagged M ns ns' \<Longrightarrow> marks_more ns ns'"
  by (auto simp: flagged_def marks_more_def)

lemma flagged_update:
  "p < length ns \<Longrightarrow> flagged {p} ns (ns[p := (ns ! p)\<lparr>connected := 1\<rparr>])"
  by (auto simp: flagged_def nth_list_update)

lemma reached_unfold:
  assumes p: "py_pos (length nodes) i = Some p"
    and ps: "resolve_refs (length network) (arc_refs (nodes ! p)) = Inr ps"
  shows "reached nodes network i
           = insert p (\<Union>a\<in>{a \<in> set (map ((!) network) ps). enabled a = 1 \<and> node_start a = i}.
                          reached nodes network (node_end a))"
    (is "?L = insert p ?U")
proof (intro set_eqI iffI)
  fix x assume "x \<in> ?L"
  then obtain j where r: "reaches (map arc_refs nodes) network i j"
    and x: "py_pos (length nodes) j = Some x"
    by (auto simp: reached_def)
  from r show "x \<in> insert p ?U"
  proof (cases rule: reaches.cases)
    case reaches_here
    with p x show ?thesis by simp
  next
    case (reaches_step p' r q)
    from reaches_step(1) p have p': "p' = p"
      by simp
    have "p < length nodes"
      by (rule py_pos_less[OF p])
    with reaches_step(2) p' have "r \<in> set (arc_refs (nodes ! p))"
      by simp
    with reaches_step(3) resolve_refs_set[OF ps] have "q \<in> set ps"
      by auto
    then have "network ! q \<in> set (map ((!) network) ps)"
      by simp
    moreover have "x \<in> reached nodes network (node_end (network ! q))"
      using reaches_step(6) x by (auto simp: reached_def)
    ultimately show ?thesis
      using reaches_step(4,5) by blast
  qed
next
  fix x assume "x \<in> insert p ?U"
  then consider "x = p" | a where "a \<in> set (map ((!) network) ps)" "enabled a = 1"
    "node_start a = i" "x \<in> reached nodes network (node_end a)"
    by auto
  then show "x \<in> ?L"
  proof cases
    case 1
    with p show ?thesis
      by (auto simp: reached_def intro: reaches_here)
  next
    case 2
    from 2(1) obtain q where q: "q \<in> set ps" and a: "a = network ! q"
      by auto
    from q resolve_refs_set[OF ps] obtain r where r: "r \<in> set (arc_refs (nodes ! p))"
      and rq: "py_pos (length network) r = Some q"
      by auto
    from 2(4) obtain j where j: "reaches (map arc_refs nodes) network (node_end a) j"
      and x: "py_pos (length nodes) j = Some x"
      by (auto simp: reached_def)
    have "p < length nodes"
      by (rule py_pos_less[OF p])
    then have "reaches (map arc_refs nodes) network i j"
      using reaches_step[of "map arc_refs nodes" i p r network q j] p r rq 2(2,3) j a
      by simp
    with x show ?thesis
      by (auto simp: reached_def)
  qed
qed

lemma connect_houses_flagged:
  "connect_houses depth nodes network i = Inr (ns', nw')
     \<Longrightarrow> flagged (reached nodes network i) nodes ns'"
proof (induction depth arbitrary: nodes i ns' nw')
  case 0
  then show ?case by simp
next
  case (Suc depth)
  from Suc.prems obtain p ps where p: "py_pos (length nodes) i = Some p"
    and ps: "resolve_refs (length network) (arc_refs (nodes ! p)) = Inr ps"
    and run: "for_each (connect_step depth i) (map ((!) network) ps)
           (nodes[p := (nodes ! p)\<lparr>connected := 1\<rparr>], network) = Inr (ns', nw')"
    by (rule connect_houses_SucE)
  let ?nodes1 = "nodes[p := (nodes ! p)\<lparr>connected := 1\<rparr>]"
  have p_less: "p < length nodes"
    by (rule py_pos_less[OF p])
  have first: "flagged {p} nodes ?nodes1"
    by (rule flagged_update[OF p_less])
  have loop: "for_each (connect_step depth i) as (ns, network) = Inr (ns', nw')
      \<Longrightarrow> marks_more nodes ns
      \<Longrightarrow> flagged (\<Union>a\<in>{a \<in> set as. enabled a = 1 \<and> node_start a = i}.
                       reached nodes network (node_end a)) ns ns'"
    for as ns
  proof (induction as arbitrary: ns)
    case Nil
    then show ?case by (simp add: flagged_empty)
  next
    case (Cons a as)
    from Cons.prems(1) obtain t where step: "connect_step depth i a (ns, network) = Inr t"
      and rest: "for_each (connect_step depth i) as t = Inr (ns', nw')"
      by (auto split: sum.splits)
    obtain ns1 nwx where t: "t = (ns1, nwx)"
      by (cases t) auto
    from connect_step_marks_more[OF step[unfolded t]] have more1: "marks_more ns ns1"
      and nwx: "nwx = network"
      by simp_all
    have one: "flagged (if enabled a = 1 \<and> node_start a = i
                        then reached nodes network (node_end a) else {}) ns ns1"
    proof (cases "enabled a = 1 \<and> node_start a = i")
      case True
      with step t nwx have "connect_houses depth ns network (node_end a) = Inr (ns1, network)"
        by (simp add: connect_step_def)
      from Suc.IH[OF this] True reached_marks_more[OF Cons.prems(2)] show ?thesis
        by simp
    next
      case False
      with step t show ?thesis
        by (auto simp: connect_step_def flagged_empty)
    qed
    have "marks_more nodes ns1"
      using Cons.prems(2) more1 by (rule marks_more_trans)
    from Cons.IH[OF rest[unfolded t nwx] this]
    have "flagged (\<Union>a\<in>{a \<in> set as. enabled a = 1 \<and> node_start a = i}.
                       reached nodes network (node_end a)) ns1 ns'" .
    from flagged_trans[OF one this] show ?case
      by (rule back_subst[where P = "\<lambda>M. flagged M ns ns'"]) auto
  qed
  from loop[OF run flagged_marks_more[OF first]] have
    "flagged (\<Union>a\<in>{a \<in> set (map ((!) network) ps). enabled a = 1 \<and> node_start a = i}.
                       reached nodes network (node_end a)) ?nodes1 ns'" .
  from flagged_trans[OF first this] show ?case
    unfolding reached_unfold[OF p ps] by simp
qed

lemma connect_houses_index:
  "connect_houses depth nodes network i = Inr r \<Longrightarrow> \<exists>p. py_pos (length nodes) i = Some p"
  by (cases depth) (auto split: option.splits)

lemma py_pos_zero: "py_pos n 0 = Some p \<Longrightarrow> p = 0 \<and> 0 < n"
  by (auto simp: py_pos_def split: if_splits)

lemma connected_after:
  assumes "connect_houses depth nodes network 0 = Inr (ns', nw0)"
  shows "length ns' = length nodes"
    and "0 < length nodes"
    and "0 \<in> reached nodes network 0"
    and "\<And>p. p < length nodes \<Longrightarrow>
           connected (ns' ! p) = 1 \<longleftrightarrow> p \<in> reached nodes network 0 \<or> connected (nodes ! p) = 1"
proof -
  from connect_houses_flagged[OF assms] have fl: "flagged (reached nodes network 0) nodes ns'" .
  then show "length ns' = length nodes"
    by (simp add: flagged_def)
  from connect_houses_index[OF assms] obtain p0 where p0: "py_pos (length nodes) 0 = Some p0"
    by auto
  from py_pos_zero[OF p0] show "0 < length nodes"
    by simp
  from py_pos_zero[OF p0] p0 show "0 \<in> reached nodes network 0"
    by (auto simp: reached_def intro: reaches_here)
  fix p assume "p < length nodes"
  with fl have "ns' ! p = (if p \<in> reached nodes network 0
                          then (nodes ! p)\<lparr>connected := 1\<rparr> else nodes ! p)"
    by (simp add: flagged_def)
  then show "connected (ns' ! p) = 1 \<longleftrightarrow> p \<in> reached nodes network 0 \<or> connected (nodes ! p) = 1"
    by auto
qed

lemma count_nodes_after:
  assumes "connect_houses depth nodes network 0 = Inr (ns', nw0)"
  shows "count_nodes ns'
           = int (card {p. 0 < p \<and> p < length nodes
                          \<and> (p \<in> reached nodes network 0 \<or> connected (nodes ! p) = 1)})"
proof -
  note after = connected_after[OF assms]
  let ?T = "{p. 0 < p \<and> p < length nodes
                \<and> (p \<in> reached nodes network 0 \<or> connected (nodes ! p) = 1)}"
  have "{p. p < length ns' \<and> connected (ns' ! p) = 1} = insert 0 ?T"
    using after by (auto simp: gr0_conv_Suc)
  moreover have "finite ?T" "0 \<notin> ?T"
    by simp_all
  ultimately have "card {p. p < length ns' \<and> connected (ns' ! p) = 1} = Suc (card ?T)"
    by simp
  then show ?thesis
    by (simp add: count_nodes_def connected_nodes_def length_filter_conv_card)
qed

text \<open>
  On lists that enter with no connected flag at 1, as create_network leaves them, the
  count of the report is the number of nodes other than node 0 that are reachable
  from node 0 through enabled arcs.
\<close>

lemma fresh_lists_count:
  assumes "connect_houses depth nodes network 0 = Inr (ns', nw0)"
    and "\<forall>n\<in>set nodes. connected n \<noteq> 1"
  shows "count_nodes ns'
           = int (card {p. 0 < p \<and> p < length nodes \<and> p \<in> reached nodes network 0})"
proof -
  have "{p. 0 < p \<and> p < length nodes
            \<and> (p \<in> reached nodes network 0 \<or> connected (nodes ! p) = 1)}
          = {p. 0 < p \<and> p < length nodes \<and> p \<in> reached nodes network 0}"
    using assms(2) by auto
  with count_nodes_after[OF assms(1)] show ?thesis
    by simp
qed

lemma rerun_reached_1: "reached rerun_nodes rerun_network 1 = {1}"
proof -
  have p: "py_pos (length rerun_nodes) 1 = Some 1"
    by code_simp
  have ps: "resolve_refs (length rerun_network) (arc_refs (rerun_nodes ! 1)) = Inr [0, 1]"
    by code_simp
  have none: "{a \<in> set (map ((!) rerun_network) [0, 1]). enabled a = 1 \<and> node_start a = 1} = {}"
    by (auto simp: rerun_network_def village_network_def)
  show ?thesis
    unfolding reached_unfold[OF p ps] none by simp
qed

lemma rerun_reached_0: "reached rerun_nodes rerun_network 0 = {0, 1}"
proof -
  have p: "py_pos (length rerun_nodes) 0 = Some 0"
    by code_simp
  have ps: "resolve_refs (length rerun_network) (arc_refs (rerun_nodes ! 0)) = Inr [1, 2]"
    by code_simp
  have one: "{a \<in> set (map ((!) rerun_network) [1, 2]). enabled a = 1 \<and> node_start a = 0}
               = {rerun_network ! 1}"
    by (auto simp: rerun_network_def village_network_def)
  have "node_end (rerun_network ! 1) = 1"
    by (simp add: rerun_network_def village_network_def)
  then show ?thesis
    unfolding reached_unfold[OF p ps] one using rerun_reached_1 by simp
qed

text \<open>
  Claim C10, at a failing input. A first call of run_model (NPV mode) on the village
  with a reach of 7 returns the lists with buildings 1 and 2 flagged connected. A
  second call on the lists returned, in coverage mode with a target of one half,
  disables arc 2: only building 1 is then reachable from the generator through enabled
  arcs. connect_houses sets flags and nothing clears one, so building 2 keeps its flag
  and the report of the second call says connected = 2.
\<close>

theorem report_counts_stale_flag:
  "(case run_model 6 4 village_network_reach7 village_nodes fair_econ (- 1) of
      Some (Inr (res, nw, ns)) \<Rightarrow> nw = village_network_reach7 \<and> ns = rerun_nodes
    | _ \<Rightarrow> False)
   \<and> (case run_model 6 4 village_network_reach7 rerun_nodes fair_econ (1 / 2) of
        Some (Inr (res, nw, ns)) \<Rightarrow>
          nw = rerun_network \<and> ns = rerun_nodes \<and> r_connected res = 2
      | _ \<Rightarrow> False)
   \<and> map connected rerun_nodes = [1, 1, 1, 0]
   \<and> map enabled rerun_network = [0, 1, 0]
   \<and> card {p. 0 < p \<and> p < length rerun_nodes \<and> p \<in> reached rerun_nodes rerun_network 0} = 1"
proof -
  have first_run:
    "(case run_model 6 4 village_network_reach7 village_nodes fair_econ (- 1) of
        Some (Inr (res, nw, ns)) \<Rightarrow> nw = village_network_reach7 \<and> ns = rerun_nodes
      | _ \<Rightarrow> False)"
    by code_simp
  have second_run:
    "(case run_model 6 4 village_network_reach7 rerun_nodes fair_econ (1 / 2) of
        Some (Inr (res, nw, ns)) \<Rightarrow>
          nw = rerun_network \<and> ns = rerun_nodes \<and> r_connected res = 2
      | _ \<Rightarrow> False)"
    by code_simp
  have flags: "map connected rerun_nodes = [1, 1, 1, 0]"
    "map enabled rerun_network = [0, 1, 0]"
    by code_simp+
  have "{p. 0 < p \<and> p < length rerun_nodes \<and> p \<in> reached rerun_nodes rerun_network 0} = {1}"
    unfolding rerun_reached_0 by (auto simp: rerun_nodes_def village_nodes_def)
  then have "card {p. 0 < p \<and> p < length rerun_nodes
                      \<and> p \<in> reached rerun_nodes rerun_network 0} = 1"
    by simp
  with first_run second_run flags show ?thesis
    by (intro conjI)
qed

section \<open>direct_network and arcs out of reach\<close>

lemma direct_network_Suc:
  "direct_network (Suc depth) mx nodes network index
     = for_each (direct_step depth mx index) [0..<length network] (nodes, network)"
  by (simp add: direct_step_def)

lemma for_each_append:
  "for_each body (xs @ ys) s
     = (case for_each body xs s of Inl e \<Rightarrow> Inl e | Inr s' \<Rightarrow> for_each body ys s')"
  by (induction xs arbitrary: s) (auto split: sum.splits)

lemma for_each_upt:
  assumes run: "for_each body [0..<n] s = Inr r"
    and start: "J 0 s"
    and step: "\<And>k t t'. k < n \<Longrightarrow> J k t \<Longrightarrow> body k t = Inr t' \<Longrightarrow> J (Suc k) t'"
  shows "J n r"
  using run step
proof (induction n arbitrary: r)
  case 0
  with start show ?case by simp
next
  case (Suc n)
  from Suc.prems(1) obtain t where first: "for_each body [0..<n] s = Inr t"
    and last: "body n t = Inr r"
    by (auto simp: for_each_append split: sum.splits)
  have "J n t"
  proof (rule Suc.IH[OF first])
    fix k t t' assume "k < n" "J k t" "body k t = Inr t'"
    then show "J (Suc k) t'"
      using Suc.prems(2)[of k t t'] by simp
  qed
  then show ?case
    using Suc.prems(2)[of n t r] last by simp
qed

lemma py_get_nth: "u < length xs \<Longrightarrow> py_get xs (int u) = Inr (xs ! u)"
  by (simp add: py_get_def py_pos_def)

lemma first_node_at_Some:
  "first_node_at ns x y = Some j \<Longrightarrow> j < length ns \<and> coords (ns ! j) = (x, y)"
proof (induction ns arbitrary: j)
  case Nil
  then show ?case by simp
next
  case (Cons n ns)
  show ?case
  proof (cases "n_x n = x \<and> n_y n = y")
    case True
    with Cons.prems show ?thesis by (simp add: coords_def)
  next
    case False
    with Cons.prems obtain j' where "first_node_at ns x y = Some j'" "j = Suc j'"
      by auto
    with Cons.IH[of j'] show ?thesis by simp
  qed
qed

lemma first_node_at_None:
  "first_node_at ns x y = None \<Longrightarrow> (x, y) \<notin> coords ` set ns"
  by (induction ns) (auto simp: coords_def split: if_splits)

lemma match_arc_Some:
  assumes "match_arc cur a = Some a'"
  shows "directed a \<noteq> 1" "a_start a' = coords cur" "edge a' = edge a"
    "arc_length a' = arc_length a" "a' = a \<or> a' = flip_arc a"
  using assms
  by (auto simp: match_arc_def flip_arc_def a_start_def a_end_def coords_def edge_def
      split: if_splits)

lemma match_arc_None:
  assumes "match_arc cur a = None" "coords cur \<in> edge a"
  shows "directed a = 1"
  using assms
  by (auto simp: match_arc_def a_start_def a_end_def coords_def edge_def split: if_splits)

lemma direct_step_cases:
  assumes "direct_step depth mx (int u) i (ns, nw) = Inr t" and "u < length ns"
  obtains (skip) "match_arc (ns ! u) (nw ! i) = None" "t = (ns, nw)"
  | (stray) a where "match_arc (ns ! u) (nw ! i) = Some a"
      "first_node_at ns (a_xe a) (a_ye a) = None"
      "t = (ns, nw[i := start_arc (ns ! u) a])"
  | (descend) a j where "match_arc (ns ! u) (nw ! i) = Some a"
      "first_node_at ns (a_xe a) (a_ye a) = Some j"
      "direct_network depth mx
         (ns[j := reach_node (ns ! u) (start_arc (ns ! u) a) (ns ! j)])
         (nw[i := end_arc mx (ns ! u) (ns ! j) (start_arc (ns ! u) a)])
         (n_index (ns ! j)) = Inr t"
  using assms
  by (auto simp: direct_step_def py_get_nth start_arc_def Let_def split: option.splits)

lemma same_frame_refl: "same_frame s s"
  by (simp add: same_frame_def)

lemma same_frame_trans: "same_frame a b \<Longrightarrow> same_frame b c \<Longrightarrow> same_frame a c"
  by (simp add: same_frame_def)

lemma linked_trans:
  assumes "linked nw a b" "linked nw b c"
  shows "linked nw a c"
  using assms(2,1) by (induction rule: linked.induct) (auto intro: linked_step)

lemma linked_mono:
  assumes "linked nw c d"
    and "length nw' = length nw"
    and "\<forall>i<length nw. edge (nw' ! i) = edge (nw ! i)"
  shows "linked nw' c d"
  using assms(1)
proof (induction rule: linked.induct)
  case linked_here
  show ?case by (rule linked.linked_here)
next
  case (linked_step c d a e)
  from linked_step(2) obtain i where i: "i < length nw" "a = nw ! i"
    by (auto simp: in_set_conv_nth)
  with assms(2,3) have "nw' ! i \<in> set nw'" "edge (nw' ! i) = edge a"
    by simp_all
  with linked_step(3,4) show ?case
    by (auto intro: linked.linked_step)
qed

lemma linked_same_frame:
  assumes "same_frame (ns, nw) (ns', nw')"
  shows "linked nw' c d \<longleftrightarrow> linked nw c d"
proof
  assume "linked nw' c d"
  then show "linked nw c d"
    by (rule linked_mono) (use assms in \<open>simp_all add: same_frame_def\<close>)
next
  assume "linked nw c d"
  then show "linked nw' c d"
    by (rule linked_mono) (use assms in \<open>simp_all add: same_frame_def\<close>)
qed

lemma linked_edge:
  assumes "linked nw c d" "i < length nw" "d \<in> edge (nw ! i)" "e \<in> edge (nw ! i)"
  shows "linked nw c e"
proof (cases "d = e")
  case True
  with assms(1) show ?thesis by simp
next
  case False
  with assms(3,4) have "edge (nw ! i) = {d, e}"
    by (auto simp: edge_def)
  moreover have "nw ! i \<in> set nw"
    using assms(2) by simp
  ultimately show ?thesis
    using assms(1) by (auto intro: linked_step)
qed

lemma start_in_edge: "a_start a \<in> edge a" and end_in_edge: "a_end a \<in> edge a"
  by (simp_all add: edge_def)

lemma start_arc_fields:
  "edge (start_arc cur a) = edge a" "a_end (start_arc cur a) = a_end a"
  "a_start (start_arc cur a) = a_start a" "arc_length (start_arc cur a) = arc_length a"
  "a_xe (start_arc cur a) = a_xe a" "a_ye (start_arc cur a) = a_ye a"
  "node_start (start_arc cur a) = n_index cur" "directed (start_arc cur a) = 1"
  "node_end (start_arc cur a) = node_end a"
  by (simp_all add: start_arc_def edge_def a_start_def a_end_def)

lemma end_arc_fields:
  "edge (end_arc mx cur nd a) = edge a" "a_end (end_arc mx cur nd a) = a_end a"
  "a_start (end_arc mx cur nd a) = a_start a" "arc_length (end_arc mx cur nd a) = arc_length a"
  "node_start (end_arc mx cur nd a) = node_start a" "directed (end_arc mx cur nd a) = directed a"
  "node_end (end_arc mx cur nd a) = n_index nd"
  by (simp_all add: end_arc_def edge_def a_start_def a_end_def Let_def)

lemma reach_node_fields:
  "coords (reach_node cur a nd) = coords nd" "n_index (reach_node cur a nd) = n_index nd"
  "marg_dist (reach_node cur a nd) = arc_length a"
  "tot_dist (reach_node cur a nd) = tot_dist cur + arc_length a"
  by (simp_all add: reach_node_def coords_def)

lemma same_frame_update:
  assumes "j < length ns" "i < length nw" "coords n' = coords (ns ! j)"
    "n_index n' = n_index (ns ! j)" "edge a' = edge (nw ! i)" "arc_length a' = arc_length (nw ! i)"
  shows "same_frame (ns, nw) (ns[j := n'], nw[i := a'])"
  using assms
  by (auto simp: same_frame_def nth_list_update map_update list_update_same_conv
      intro!: nth_equalityI)

lemma same_frame_update_arc:
  assumes "i < length nw" "edge a' = edge (nw ! i)" "arc_length a' = arc_length (nw ! i)"
  shows "same_frame (ns, nw) (ns, nw[i := a'])"
  using assms by (auto simp: same_frame_def nth_list_update)

lemma direct_network_beyond:
  assumes "\<forall>p<length ns. n_index (ns ! p) = int p"
    and "u < length ns"
    and "direct_network depth mx ns nw (int u) = Inr (ns', nw')"
  shows "same_frame (ns, nw) (ns', nw') \<and> untouched_beyond (coords (ns ! u)) nw nw'"
  using assms
proof (induction depth arbitrary: ns nw u ns' nw')
  case 0
  then show ?case by simp
next
  case (Suc depth)
  let ?c = "coords (ns ! u)"
  let ?J = "\<lambda>(k::nat) t. same_frame (ns, nw) t \<and> untouched_beyond ?c nw (snd t)"
  from Suc.prems(3) have run:
    "for_each (direct_step depth mx (int u)) [0..<length nw] (ns, nw) = Inr (ns', nw')"
    by (simp only: direct_network_Suc)
  have "?J (length nw) (ns', nw')"
  proof (rule for_each_upt[OF run, where J = ?J])
    show "?J 0 (ns, nw)"
      by (simp add: same_frame_refl untouched_beyond_def)
  next
    fix k t t'
    assume k: "k < length nw" and inv: "?J k t"
      and step: "direct_step depth mx (int u) k t = Inr t'"
    obtain nsk nwk where t: "t = (nsk, nwk)"
      by (cases t) auto
    from inv t have frame: "same_frame (ns, nw) (nsk, nwk)"
      and beyond: "untouched_beyond ?c nw nwk"
      by simp_all
    from frame have lens: "length nsk = length ns" "length nwk = length nw"
      and cs: "map coords nsk = map coords ns"
      and ix: "map n_index nsk = map n_index ns"
      and edges: "\<forall>i<length nw. edge (nwk ! i) = edge (nw ! i)"
      by (simp_all add: same_frame_def)
    have u_k: "u < length nsk"
      using Suc.prems(2) lens by simp
    have cur_c: "coords (nsk ! u) = ?c"
      using cs u_k lens by (metis nth_map)
    have linked_k: "linked nw ?c (a_start (nw ! k))"
      if "match_arc (nsk ! u) (nwk ! k) = Some a" for a
    proof -
      from match_arc_Some(2,3)[OF that] have "?c \<in> edge (nwk ! k)"
        using cur_c start_in_edge[of a] by simp
      with edges k have "?c \<in> edge (nw ! k)"
        by simp
      from linked_edge[OF linked_here k this start_in_edge] show ?thesis .
    qed
    from step[unfolded t] u_k show "?J (Suc k) t'"
    proof (cases rule: direct_step_cases)
      case skip
      with inv t show ?thesis by simp
    next
      case (stray a)
      let ?a1 = "start_arc (nsk ! u) a"
      have "same_frame (nsk, nwk) (nsk, nwk[k := ?a1])"
        using k lens match_arc_Some(3,4)[OF stray(1)]
        by (intro same_frame_update_arc) (simp_all add: start_arc_fields)
      with frame have f': "same_frame (ns, nw) t'"
        using stray(3) by (auto intro: same_frame_trans)
      have "nwk[k := ?a1] ! i = nw ! i"
        if "i < length nw" "\<not> linked nw ?c (a_start (nw ! i))" for i
      proof -
        have "i \<noteq> k"
          using that(2) linked_k[OF stray(1)] by auto
        with beyond that show ?thesis
          by (simp add: untouched_beyond_def)
      qed
      then have "untouched_beyond ?c nw (nwk[k := ?a1])"
        by (simp add: untouched_beyond_def)
      with f' stray(3) show ?thesis by simp
    next
      case (descend a j)
      let ?a1 = "start_arc (nsk ! u) a"
      let ?ns1 = "nsk[j := reach_node (nsk ! u) ?a1 (nsk ! j)]"
      let ?nw1 = "nwk[k := end_arc mx (nsk ! u) (nsk ! j) ?a1]"
      from first_node_at_Some[OF descend(2)] have j: "j < length nsk"
        and cj: "coords (nsk ! j) = a_end a"
        by (simp_all add: a_end_def)
      have f1: "same_frame (nsk, nwk) (?ns1, ?nw1)"
        using j k lens match_arc_Some(3,4)[OF descend(1)]
        by (intro same_frame_update) (simp_all add: start_arc_fields end_arc_fields reach_node_fields)
      have idx_k: "\<forall>p<length nsk. n_index (nsk ! p) = int p"
        using Suc.prems(1) ix lens by (metis nth_map)
      have "n_index (?ns1 ! p) = int p" if "p < length nsk" for p
        using that idx_k by (cases "p = j") (simp_all add: reach_node_fields)
      then have idx1: "\<forall>p<length ?ns1. n_index (?ns1 ! p) = int p"
        by simp
      have call: "direct_network depth mx ?ns1 ?nw1 (int j) = Inr t'"
        using descend(3) idx_k j by simp
      obtain ns2 nw2 where t': "t' = (ns2, nw2)"
        by (cases t') auto
      from Suc.IH[OF idx1 _ call[unfolded t']] j
      have f2: "same_frame (?ns1, ?nw1) (ns2, nw2)"
        and b2: "untouched_beyond (coords (?ns1 ! j)) ?nw1 nw2"
        by simp_all
      have f01: "same_frame (ns, nw) (?ns1, ?nw1)"
        using frame f1 by (rule same_frame_trans)
      have f': "same_frame (ns, nw) (ns2, nw2)"
        using f01 f2 by (rule same_frame_trans)
      have cj1: "coords (?ns1 ! j) = a_end a"
        using j cj by (simp add: reach_node_fields)
      have "?c \<in> edge (nwk ! k)" "a_end a \<in> edge (nwk ! k)"
        using match_arc_Some(2,3)[OF descend(1)] cur_c start_in_edge[of a] end_in_edge[of a]
        by simp_all
      with edges k have "?c \<in> edge (nw ! k)" "a_end a \<in> edge (nw ! k)"
        by simp_all
      from linked_edge[OF linked_here k this] have to_j: "linked nw ?c (a_end a)" .
      have "nw2 ! i = nw ! i" if i: "i < length nw" and far: "\<not> linked nw ?c (a_start (nw ! i))" for i
      proof -
        have "i \<noteq> k"
          using far linked_k[OF descend(1)] by auto
        from beyond i far have same_k: "nwk ! i = nw ! i"
          by (simp add: untouched_beyond_def)
        with \<open>i \<noteq> k\<close> have same_1: "?nw1 ! i = nw ! i"
          by simp
        have "\<not> linked ?nw1 (a_end a) (a_start (?nw1 ! i))"
        proof
          assume "linked ?nw1 (a_end a) (a_start (?nw1 ! i))"
          then have "linked nw (a_end a) (a_start (nw ! i))"
            using linked_same_frame[OF f01] same_1 by simp
          with to_j far show False
            by (auto dest: linked_trans)
        qed
        with b2 cj1 i lens have "nw2 ! i = ?nw1 ! i"
          by (simp add: untouched_beyond_def)
        with same_1 show ?thesis by simp
      qed
      then have "untouched_beyond ?c nw nw2"
        by (simp add: untouched_beyond_def)
      with f' t' show ?thesis by simp
    qed
  qed
  then show ?case by simp
qed

lemma for_each_first:
  "for_each body (x # xs) s = Inr r \<Longrightarrow> \<exists>t. body x s = Inr t"
  by (auto split: sum.splits)

lemma direct_network_needs_nodes:
  assumes "direct_network depth mx nodes network 0 = Inr r" "network \<noteq> []"
  shows "0 < length nodes"
proof (rule ccontr)
  assume "\<not> 0 < length nodes"
  then have empty: "nodes = []"
    by simp
  from assms(1) obtain d where d: "depth = Suc d"
    by (cases depth) auto
  from assms(2) have "[0..<length network] = 0 # [1..<length network]"
    by (simp add: upt_conv_Cons)
  with assms(1) d have "\<exists>t. direct_step d mx 0 0 (nodes, network) = Inr t"
    using for_each_first[of "direct_step d mx 0" 0 "[1..<length network]" "(nodes, network)" r]
    by (simp del: direct_network.simps add: direct_network_Suc)
  with empty show False
    by (simp add: direct_step_def py_get_def py_pos_def)
qed


lemma stray_run:
  "direct_network 5 100 raw_nodes stray_network 0
     = Inr (directed_nodes, village_network @ [stray_arc])"
  by code_simp

lemma raw_indexed: "indexed raw_nodes"
  by (simp add: indexed_def raw_nodes_def new_node_def less_Suc_eq)

lemma linked_closed:
  assumes "linked nw c d" and "c \<in> S"
    and "\<forall>a\<in>set nw. edge a \<inter> S \<noteq> {} \<longrightarrow> edge a \<subseteq> S"
  shows "d \<in> S"
  using assms(1,2)
proof (induction rule: linked.induct)
  case (linked_here c)
  then show ?case by simp
next
  case (linked_step c d a e)
  then have "d \<in> S" by simp
  with linked_step(3) have "edge a \<inter> S \<noteq> {}"
    by auto
  with assms(3) linked_step(2,3) show ?case
    by auto
qed

lemma stray_not_linked:
  "\<not> linked stray_network (coords (raw_nodes ! 0)) (a_start (stray_network ! 3))"
proof
  assume "linked stray_network (coords (raw_nodes ! 0)) (a_start (stray_network ! 3))"
  then have "a_start (stray_network ! 3) \<in> {(0, 0), (3, 4), (3, 0), (6, 4)}"
    by (rule linked_closed)
      (auto simp: stray_network_def raw_network_def stray_arc_def new_arc_def raw_nodes_def
        new_node_def coords_def edge_def a_start_def a_end_def)
  then show False
    by (simp add: stray_network_def raw_network_def stray_arc_def new_arc_def a_start_def)
qed



section \<open>direct_network on a valid spanning tree\<close>

lemma same_frame_shape:
  assumes "shape s" "same_frame s s'"
  shows "shape s'"
proof -
  obtain ns nw ns' nw' where s: "s = (ns, nw)" "s' = (ns', nw')"
    by (cases s, cases s') auto
  from assms(2) s have len: "length ns' = length ns" "length nw' = length nw"
    and cs: "map coords ns' = map coords ns" and ix: "map n_index ns' = map n_index ns"
    and ed: "\<forall>i<length nw. edge (nw' ! i) = edge (nw ! i)"
    by (simp_all add: same_frame_def)
  have "indexed ns'"
    unfolding indexed_def
  proof (intro allI impI)
    fix p assume p: "p < length ns'"
    then have "n_index (ns' ! p) = map n_index ns' ! p" by simp
    also have "\<dots> = n_index (ns ! p)" using ix p len by simp
    finally show "n_index (ns' ! p) = int p"
      using assms(1) s p len by (simp add: shape_def indexed_def)
  qed
  moreover have "distinct (map coords ns')"
    using assms(1) s cs by (simp add: shape_def)
  moreover have "edge a \<subseteq> coords ` set ns'" if "a \<in> set nw'" for a
  proof -
    from that obtain i where i: "i < length nw'" "a = nw' ! i"
      by (auto simp: in_set_conv_nth)
    with ed len have "edge a = edge (nw ! i)" "nw ! i \<in> set nw"
      by simp_all
    with assms(1) s have "edge a \<subseteq> coords ` set ns"
      by (auto simp: shape_def)
    moreover have "coords ` set ns' = coords ` set ns"
      using cs by (metis set_map)
    ultimately show ?thesis by simp
  qed
  ultimately show ?thesis
    using s by (simp add: shape_def)
qed

lemma progress_start: "progress u 0 s s"
  by (simp add: progress_def same_frame_refl frozen_def done_at_def ends_done_def placed_def
      rooted_def written_def measured_def newly_def)

lemma same_frame_coords:
  assumes "same_frame (ns, nw) (ns', nw')" "p < length ns"
  shows "coords (ns' ! p) = coords (ns ! p)"
proof -
  from assms have "map coords ns' ! p = map coords ns ! p" "p < length ns'"
    by (simp_all add: same_frame_def)
  with assms(2) show ?thesis by simp
qed

lemma same_frame_edge:
  "same_frame (ns, nw) (ns', nw') \<Longrightarrow> i < length nw \<Longrightarrow> edge (nw' ! i) = edge (nw ! i)"
  by (simp add: same_frame_def)

lemma same_frame_lengths:
  "same_frame (ns, nw) (ns', nw') \<Longrightarrow> length ns' = length ns \<and> length nw' = length nw"
  by (simp add: same_frame_def)

lemma descend_progress:
  fixes mx :: real
  assumes sh: "shape (ns0, nw0)" and u: "u < length ns0" and k: "k < length nw0"
    and P: "progress u k (ns0, nw0) (ns, nw)"
    and ma: "match_arc (ns ! u) (nw ! k) = Some a"
    and fj: "first_node_at ns (a_xe a) (a_ye a) = Some j"
    and Q: "progress j (length nw)
              (ns[j := reach_node (ns ! u) (start_arc (ns ! u) a) (ns ! j)],
               nw[k := end_arc mx (ns ! u) (ns ! j) (start_arc (ns ! u) a)])
              (ns', nw')"
  shows "progress u (Suc k) (ns0, nw0) (ns', nw')"
proof -
  define a3 where "a3 = end_arc mx (ns ! u) (ns ! j) (start_arc (ns ! u) a)"
  define n1 where "n1 = reach_node (ns ! u) (start_arc (ns ! u) a) (ns ! j)"
  define ns1 where "ns1 = ns[j := n1]"
  define nw1 where "nw1 = nw[k := a3]"
  define N0 where "N0 = newly nw0 nw"
  define N1 where "N1 = newly nw1 nw'"
  define N where "N = newly nw0 nw'"
  note Q' = Q[folded a3_def n1_def, folded ns1_def nw1_def]

  from P have fr0: "same_frame (ns0, nw0) (ns, nw)" and fz0: "frozen nw0 nw"
    and d0: "done_at (coords (ns0 ! u)) k nw" and e0: "ends_done nw0 nw"
    and p0: "placed ns0 nw0 nw" and r0: "rooted u nw0 nw"
    and w0: "written ns0 ns nw0 nw" and m0: "measured u ns nw0 nw"
    by (simp_all add: progress_def)
  from Q' have fr1: "same_frame (ns1, nw1) (ns', nw')" and fz1: "frozen nw1 nw'"
    and d1: "done_at (coords (ns1 ! j)) (length nw) nw'" and e1: "ends_done nw1 nw'"
    and p1: "placed ns1 nw1 nw'" and r1: "rooted j nw1 nw'"
    and w1: "written ns1 ns' nw1 nw'" and m1: "measured j ns' nw1 nw'"
    by (simp_all add: progress_def)

  from same_frame_lengths[OF fr0] have lens: "length ns = length ns0" "length nw = length nw0"
    by simp_all
  have len1: "length ns1 = length ns0" "length nw1 = length nw0"
    by (simp_all add: ns1_def nw1_def lens)
  from same_frame_lengths[OF fr1] len1 have lens': "length ns' = length ns0" "length nw' = length nw0"
    by simp_all
  from first_node_at_Some[OF fj] lens have j: "j < length ns0" and cj: "coords (ns ! j) = a_end a"
    by (simp_all add: a_end_def)
  have sh_k: "shape (ns, nw)"
    using sh fr0 by (rule same_frame_shape)
  then have ix_u: "n_index (ns ! u) = int u" and ix_j: "n_index (ns ! j) = int j"
    using u j lens by (simp_all add: shape_def indexed_def)
  have c_u: "coords (ns ! u) = coords (ns0 ! u)" and c_j: "coords (ns ! j) = coords (ns0 ! j)"
    using same_frame_coords[OF fr0] u j by simp_all

  note mf = match_arc_Some[OF ma]
  have a3: "directed a3 = 1" "node_start a3 = int u" "node_end a3 = int j"
    "a_start a3 = coords (ns0 ! u)" "a_end a3 = coords (ns0 ! j)"
    "arc_length a3 = arc_length a" "edge a3 = edge (nw ! k)" "arc_length a3 = arc_length (nw ! k)"
    using mf ix_u ix_j c_u c_j cj
    by (simp_all add: a3_def end_arc_fields start_arc_fields)
  have n1: "coords n1 = coords (ns ! j)" "n_index n1 = n_index (ns ! j)"
    "marg_dist n1 = arc_length a3" "tot_dist n1 = tot_dist (ns ! u) + arc_length a3"
    by (simp_all add: n1_def reach_node_fields a3 start_arc_fields)

  have not_k: "directed (nw ! k) \<noteq> 1"
    by (rule mf(1))
  have not_k0: "directed (nw0 ! k) \<noteq> 1"
    using fz0 k not_k by (auto simp: frozen_def)
  have nw1_k: "nw1 ! k = a3" and nw1_other: "\<And>i. i \<noteq> k \<Longrightarrow> nw1 ! i = nw ! i"
    using k lens by (simp_all add: nw1_def)
  have ns1_j: "ns1 ! j = n1" and ns1_other: "\<And>p. p \<noteq> j \<Longrightarrow> ns1 ! p = ns ! p"
    using j lens by (simp_all add: ns1_def)

  have fr01: "same_frame (ns, nw) (ns1, nw1)"
    unfolding ns1_def nw1_def
    using j k lens n1 a3 by (intro same_frame_update) simp_all
  have fr: "same_frame (ns0, nw0) (ns', nw')"
    using fr0 fr01 fr1 by (blast intro: same_frame_trans)
  have fr_k': "same_frame (ns, nw) (ns', nw')"
    using fr01 fr1 by (rule same_frame_trans)

  have keep: "nw' ! i = nw ! i" if "i < length nw0" "directed (nw ! i) = 1" for i
  proof -
    from that not_k have "i \<noteq> k" by auto
    with that nw1_other[of i] fz1 len1 show ?thesis
      by (simp add: frozen_def)
  qed
  have keep_k: "nw' ! k = a3"
    using fz1 k len1 nw1_k a3(1) by (simp add: frozen_def)

  have N0_arc: "nw' ! m = nw ! m" "m \<noteq> k" "m < length nw0" "directed (nw ! m) = 1"
    if "m \<in> N0" for m
    using that keep[of m] not_k by (auto simp: N0_def newly_def)
  have N1_arc: "m \<noteq> k" "m < length nw0" "directed (nw ! m) \<noteq> 1" if "m \<in> N1" for m
  proof -
    from that have m: "m < length nw1" "directed (nw1 ! m) \<noteq> 1"
      by (simp_all add: N1_def newly_def)
    with a3(1) nw1_k show "m \<noteq> k" by auto
    with m nw1_other[of m] len1 show "m < length nw0" "directed (nw ! m) \<noteq> 1"
      by simp_all
  qed
  have N_eq: "N = N0 \<union> {k} \<union> N1"
  proof (intro set_eqI iffI)
    fix m assume "m \<in> N"
    then have m: "m < length nw0" "directed (nw0 ! m) \<noteq> 1" "directed (nw' ! m) = 1"
      by (simp_all add: N_def newly_def)
    show "m \<in> N0 \<union> {k} \<union> N1"
    proof (cases "directed (nw ! m) = 1")
      case True
      with m show ?thesis by (simp add: N0_def newly_def)
    next
      case False
      show ?thesis
      proof (cases "m = k")
        case True
        then show ?thesis by simp
      next
        case False
        with \<open>directed (nw ! m) \<noteq> 1\<close> m len1 nw1_other[of m] show ?thesis
          by (simp add: N1_def newly_def)
      qed
    qed
  next
    fix m assume "m \<in> N0 \<union> {k} \<union> N1"
    then consider "m \<in> N0" | "m = k" | "m \<in> N1" by auto
    then show "m \<in> N"
    proof cases
      case 1
      with N0_arc[OF 1] show ?thesis
        by (simp add: N_def N0_def newly_def)
    next
      case 2
      with k not_k0 keep_k a3(1) show ?thesis
        by (simp add: N_def newly_def)
    next
      case 3
      from N1_arc[OF 3] fz0 have "directed (nw0 ! m) \<noteq> 1"
        by (auto simp: frozen_def)
      with 3 N1_arc[OF 3] show ?thesis
        by (simp add: N_def N1_def newly_def)
    qed
  qed
  have "N0 \<inter> N1 = {}"
    using N0_arc(4) N1_arc(3) by blast
  moreover have "k \<notin> N0"
    using N0_arc(2) by blast
  moreover have "k \<notin> N1"
    using N1_arc(1) by blast
  ultimately have disjoint: "N0 \<inter> N1 = {}" "k \<notin> N0" "k \<notin> N1"
    by simp_all

  have frozen': "frozen nw0 nw'"
    unfolding frozen_def
  proof (intro allI impI)
    fix i assume i: "i < length nw0" "directed (nw0 ! i) = 1"
    with fz0 have "nw ! i = nw0 ! i" by (simp add: frozen_def)
    with i keep[of i] show "nw' ! i = nw0 ! i" by simp
  qed

  have done': "done_at (coords (ns0 ! u)) (Suc k) nw'"
    unfolding done_at_def
  proof (intro allI impI)
    fix i assume i: "i < Suc k" and touch: "coords (ns0 ! u) \<in> edge (nw' ! i)"
    show "directed (nw' ! i) = 1"
    proof (cases "i = k")
      case True
      with keep_k a3(1) show ?thesis by simp
    next
      case False
      with i have ik: "i < k" by simp
      with k have il: "i < length nw0" by simp
      from same_frame_edge[OF fr_k'] il lens touch have "coords (ns0 ! u) \<in> edge (nw ! i)"
        by simp
      with d0 ik have "directed (nw ! i) = 1"
        by (simp add: done_at_def)
      with keep[OF il] show ?thesis by simp
    qed
  qed

  have ends': "ends_done nw0 nw'"
    unfolding ends_done_def done_at_def N_def[symmetric]
  proof (intro ballI allI impI)
    fix m i assume m: "m \<in> N" and i: "i < length nw0"
      and touch: "a_end (nw' ! m) \<in> edge (nw' ! i)"
    from m N_eq consider "m \<in> N0" | "m = k" | "m \<in> N1" by auto
    then show "directed (nw' ! i) = 1"
    proof cases
      case 1
      from same_frame_edge[OF fr_k'] i lens touch N0_arc(1)[OF 1]
      have "a_end (nw ! m) \<in> edge (nw ! i)" by simp
      with e0 1 i have "directed (nw ! i) = 1"
        by (simp add: ends_done_def done_at_def N0_def)
      with keep[OF i] show ?thesis by simp
    next
      case 2
      with keep_k a3(5) touch have "coords (ns0 ! j) \<in> edge (nw' ! i)" by simp
      moreover have "coords (ns1 ! j) = coords (ns0 ! j)"
        using ns1_j n1(1) c_j by simp
      ultimately show ?thesis
        using d1 i lens by (simp add: done_at_def)
    next
      case 3
      with e1 i touch len1 show ?thesis
        by (simp add: ends_done_def done_at_def N1_def)
    qed
  qed

  have coords1: "coords (ns1 ! p) = coords (ns0 ! p)" if "p < length ns0" for p
    using same_frame_coords[OF fr01, of p] same_frame_coords[OF fr0, of p] that lens by simp

  have placed': "placed ns0 nw0 nw'"
    unfolding placed_def N_def[symmetric]
  proof
    fix m assume "m \<in> N"
    with N_eq consider "m \<in> N0" | "m = k" | "m \<in> N1" by auto
    then show "\<exists>p<length ns0. \<exists>j<length ns0.
         node_start (nw' ! m) = int p \<and> node_end (nw' ! m) = int j
         \<and> coords (ns0 ! p) = a_start (nw' ! m) \<and> coords (ns0 ! j) = a_end (nw' ! m)"
    proof cases
      case 1
      with p0 N0_arc(1)[OF 1] show ?thesis
        by (simp add: placed_def N0_def)
    next
      case 2
      with keep_k a3 u j show ?thesis by auto
    next
      case 3
      with p1 obtain p q where "p < length ns1" "q < length ns1"
        "node_start (nw' ! m) = int p" "node_end (nw' ! m) = int q"
        "coords (ns1 ! p) = a_start (nw' ! m)" "coords (ns1 ! q) = a_end (nw' ! m)"
        by (auto simp: placed_def N1_def)
      with len1 coords1 show ?thesis by auto
    qed
  qed

  have rooted': "rooted u nw0 nw'"
    unfolding rooted_def N_def[symmetric]
  proof
    fix m assume "m \<in> N"
    with N_eq consider "m \<in> N0" | "m = k" | "m \<in> N1" by auto
    then show "node_start (nw' ! m) = int u
         \<or> (\<exists>m'\<in>N. node_start (nw' ! m) = node_end (nw' ! m'))"
    proof cases
      case 1
      with r0 have "node_start (nw ! m) = int u
         \<or> (\<exists>m'\<in>N0. node_start (nw ! m) = node_end (nw ! m'))"
        by (simp add: rooted_def N0_def)
      then show ?thesis
      proof
        assume "node_start (nw ! m) = int u"
        with N0_arc(1)[OF 1] show ?thesis by simp
      next
        assume "\<exists>m'\<in>N0. node_start (nw ! m) = node_end (nw ! m')"
        then obtain m' where m': "m' \<in> N0" "node_start (nw ! m) = node_end (nw ! m')"
          by auto
        with N0_arc(1)[OF 1] N0_arc(1)[OF m'(1)] N_eq
        have "m' \<in> N" "node_start (nw' ! m) = node_end (nw' ! m')"
          by simp_all
        then show ?thesis by blast
      qed
    next
      case 2
      with keep_k a3(2) show ?thesis by simp
    next
      case 3
      with r1 have "node_start (nw' ! m) = int j
         \<or> (\<exists>m'\<in>N1. node_start (nw' ! m) = node_end (nw' ! m'))"
        by (simp add: rooted_def N1_def)
      then show ?thesis
      proof
        assume "node_start (nw' ! m) = int j"
        with keep_k a3(3) have "node_start (nw' ! m) = node_end (nw' ! k)" by simp
        moreover have "k \<in> N" using N_eq by simp
        ultimately show ?thesis by blast
      next
        assume "\<exists>m'\<in>N1. node_start (nw' ! m) = node_end (nw' ! m')"
        then obtain m' where "m' \<in> N1" "node_start (nw' ! m) = node_end (nw' ! m')"
          by auto
        moreover from this N_eq have "m' \<in> N" by simp
        ultimately show ?thesis by blast
      qed
    qed
  qed

  have changed: "\<exists>m\<in>{k} \<union> N1. node_end (nw' ! m) = int p"
    if "p < length ns0" "ns' ! p \<noteq> ns ! p" for p
  proof (cases "ns' ! p = ns1 ! p")
    case True
    with that ns1_other[of p] have "p = j" by auto
    with keep_k a3(3) show ?thesis by simp
  next
    case False
    with w1 that len1 show ?thesis
      by (auto simp: written_def N1_def)
  qed

  have written': "written ns0 ns' nw0 nw'"
    unfolding written_def N_def[symmetric]
  proof (intro allI impI)
    fix p assume p: "p < length ns0" "ns' ! p \<noteq> ns0 ! p"
    show "\<exists>m\<in>N. node_end (nw' ! m) = int p"
    proof (cases "ns' ! p = ns ! p")
      case True
      with p w0 obtain m where m: "m \<in> N0" "node_end (nw ! m) = int p"
        by (auto simp: written_def N0_def)
      with N0_arc(1)[OF m(1)] N_eq have "m \<in> N" "node_end (nw' ! m) = int p"
        by simp_all
      then show ?thesis by blast
    next
      case False
      from changed[OF p(1) this] N_eq show ?thesis by auto
    qed
  qed

  have measured': "measured u ns' nw0 nw'"
  proof (cases "clash u N nw'")
    case True
    then show ?thesis by (simp add: measured_def N_def)
  next
    case False
    then have no_back: "\<And>m. m \<in> N \<Longrightarrow> node_end (nw' ! m) \<noteq> int u"
      and no_dup: "\<And>m m'. m \<in> N \<Longrightarrow> m' \<in> N \<Longrightarrow> node_end (nw' ! m) = node_end (nw' ! m') \<Longrightarrow> m = m'"
      by (auto simp: clash_def)
    have kN: "k \<in> N" and N0N: "N0 \<subseteq> N" and N1N: "N1 \<subseteq> N"
      using N_eq by auto
    have same_node: "ns' ! p = ns ! p"
      if "p < length ns0" "\<And>m. m \<in> {k} \<union> N1 \<Longrightarrow> node_end (nw' ! m) \<noteq> int p" for p
      using changed[OF that(1)] that(2) by auto
    have "\<not> clash u N0 nw"
    proof
      assume "clash u N0 nw"
      then consider m where "m \<in> N0" "node_end (nw ! m) = int u"
        | m m' where "m \<in> N0" "m' \<in> N0" "m \<noteq> m'" "node_end (nw ! m) = node_end (nw ! m')"
        by (auto simp: clash_def)
      then show False
      proof cases
        case 1
        with no_back[of m] N0N N0_arc(1)[OF 1(1)] show ?thesis by auto
      next
        case 2
        with no_dup[of m m'] N0N N0_arc(1)[OF 2(1)] N0_arc(1)[OF 2(2)] show ?thesis by auto
      qed
    qed
    with m0 have good0: "\<And>m. m \<in> N0 \<Longrightarrow> good ns (nw ! m)"
      by (auto simp: measured_def N0_def)
    have "\<not> clash j N1 nw'"
    proof
      assume "clash j N1 nw'"
      then consider m where "m \<in> N1" "node_end (nw' ! m) = int j"
        | m m' where "m \<in> N1" "m' \<in> N1" "m \<noteq> m'" "node_end (nw' ! m) = node_end (nw' ! m')"
        by (auto simp: clash_def)
      then show False
      proof cases
        case 1
        with no_dup[of m k] kN N1N keep_k a3(3) disjoint show ?thesis by auto
      next
        case 2
        with no_dup[of m m'] N1N show ?thesis by auto
      qed
    qed
    with m1 have good1: "\<And>m. m \<in> N1 \<Longrightarrow> good ns' (nw' ! m)"
      by (auto simp: measured_def N1_def)
    have ju: "j \<noteq> u"
      using no_back[OF kN] keep_k a3(3) by auto
    have end_k: "ns' ! j = n1"
    proof -
      have "ns' ! j = ns1 ! j"
      proof (rule ccontr)
        assume "ns' ! j \<noteq> ns1 ! j"
        with w1 j len1 obtain m where "m \<in> N1" "node_end (nw' ! m) = int j"
          by (auto simp: written_def N1_def)
        with no_dup[of m k] kN N1N keep_k a3(3) disjoint show False by auto
      qed
      with ns1_j show ?thesis by simp
    qed
    have start_k: "ns' ! u = ns ! u"
    proof (rule same_node[OF u])
      fix m assume "m \<in> {k} \<union> N1"
      with kN N1N have "m \<in> N" by auto
      from no_back[OF this] show "node_end (nw' ! m) \<noteq> int u" .
    qed
    have good_k: "good ns' (nw' ! k)"
      using keep_k a3(2,3) end_k start_k n1(3,4) by (simp add: good_def)
    have good_0: "good ns' (nw' ! m)" if m: "m \<in> N0" for m
    proof -
      from p0 m obtain p q where pq: "p < length ns0" "q < length ns0"
        "node_start (nw ! m) = int p" "node_end (nw ! m) = int q"
        by (auto simp: placed_def N0_def)
      have mN: "m \<in> N" using m N0N by auto
      have "ns' ! q = ns ! q"
      proof (rule same_node[OF pq(2)])
        fix m' assume m': "m' \<in> {k} \<union> N1"
        with kN N1N have "m' \<in> N" by auto
        moreover have "m' \<noteq> m" using m' m disjoint by auto
        ultimately show "node_end (nw' ! m') \<noteq> int q"
          using no_dup[of m' m] mN N0_arc(1)[OF m] pq(4) by auto
      qed
      moreover have "ns' ! p = ns ! p"
      proof (rule same_node[OF pq(1)])
        fix m' assume m': "m' \<in> {k} \<union> N1"
        with kN N1N have m'N: "m' \<in> N" by auto
        from r0 m have "node_start (nw ! m) = int u
           \<or> (\<exists>m2\<in>N0. node_start (nw ! m) = node_end (nw ! m2))"
          by (simp add: rooted_def N0_def)
        then show "node_end (nw' ! m') \<noteq> int p"
        proof
          assume "node_start (nw ! m) = int u"
          with pq(3) no_back[OF m'N] show ?thesis by simp
        next
          assume "\<exists>m2\<in>N0. node_start (nw ! m) = node_end (nw ! m2)"
          then obtain m2 where m2: "m2 \<in> N0" "node_start (nw ! m) = node_end (nw ! m2)"
            by auto
          then have "m2 \<in> N" "m2 \<noteq> m'" "node_end (nw' ! m2) = int p"
            using N0N m' disjoint N0_arc(1)[OF m2(1)] pq(3) by auto
          with no_dup[of m' m2] m'N show ?thesis by auto
        qed
      qed
      ultimately show ?thesis
        using good0[OF m] N0_arc(1)[OF m] pq(3,4) by (simp add: good_def)
    qed
    have "good ns' (nw' ! m)" if "m \<in> N" for m
      using that N_eq good_0 good_k good1 by auto
    then show ?thesis
      by (simp add: measured_def N_def)
  qed

  show ?thesis
    unfolding progress_def
    using fr frozen' done' ends' placed' rooted' written' measured' by simp
qed

lemma skip_progress:
  assumes u: "u < length ns0" and k: "k < length nw0"
    and P: "progress u k (ns0, nw0) (ns, nw)"
    and ma: "match_arc (ns ! u) (nw ! k) = None"
  shows "progress u (Suc k) (ns0, nw0) (ns, nw)"
proof -
  from P have fr0: "same_frame (ns0, nw0) (ns, nw)"
    and d0: "done_at (coords (ns0 ! u)) k nw"
    by (simp_all add: progress_def)
  have c_u: "coords (ns ! u) = coords (ns0 ! u)"
    using same_frame_coords[OF fr0 u] .
  have "done_at (coords (ns0 ! u)) (Suc k) nw"
    unfolding done_at_def
  proof (intro allI impI)
    fix i assume i: "i < Suc k" and touch: "coords (ns0 ! u) \<in> edge (nw ! i)"
    show "directed (nw ! i) = 1"
    proof (cases "i = k")
      case True
      with touch c_u match_arc_None[OF ma] show ?thesis by simp
    next
      case False
      with i d0 touch show ?thesis by (simp add: done_at_def)
    qed
  qed
  with P show ?thesis
    by (simp add: progress_def)
qed

lemma no_stray:
  assumes sh: "shape (ns, nw)" and k: "k < length nw"
    and ma: "match_arc cur (nw ! k) = Some a"
  shows "first_node_at ns (a_xe a) (a_ye a) \<noteq> None"
proof
  assume "first_node_at ns (a_xe a) (a_ye a) = None"
  from first_node_at_None[OF this] have "a_end a \<notin> coords ` set ns"
    by (simp add: a_end_def)
  moreover have "a_end a \<in> edge (nw ! k)"
    using match_arc_Some(3)[OF ma] end_in_edge[of a] by simp
  moreover have "nw ! k \<in> set nw"
    using k by simp
  ultimately show False
    using sh by (auto simp: shape_def)
qed

lemma direct_network_progress:
  assumes "shape (ns0, nw0)" and "u < length ns0"
    and "direct_network depth mx ns0 nw0 (int u) = Inr (ns', nw')"
  shows "progress u (length nw0) (ns0, nw0) (ns', nw')"
  using assms
proof (induction depth arbitrary: ns0 nw0 u ns' nw')
  case 0
  then show ?case by simp
next
  case (Suc depth)
  from Suc.prems(3) have run:
    "for_each (direct_step depth mx (int u)) [0..<length nw0] (ns0, nw0) = Inr (ns', nw')"
    by (simp only: direct_network_Suc)
  show ?case
  proof (rule for_each_upt[OF run, where J = "\<lambda>k t. progress u k (ns0, nw0) t"])
    show "progress u 0 (ns0, nw0) (ns0, nw0)"
      by (rule progress_start)
  next
    fix k t t'
    assume k: "k < length nw0" and P: "progress u k (ns0, nw0) t"
      and step: "direct_step depth mx (int u) k t = Inr t'"
    obtain ns nw where t: "t = (ns, nw)"
      by (cases t) auto
    obtain ns2 nw2 where t': "t' = (ns2, nw2)"
      by (cases t') auto
    from P t have fr0: "same_frame (ns0, nw0) (ns, nw)"
      by (simp add: progress_def)
    from same_frame_lengths[OF fr0] have lens: "length ns = length ns0" "length nw = length nw0"
      by simp_all
    have sh_k: "shape (ns, nw)"
      using Suc.prems(1) fr0 by (rule same_frame_shape)
    have u_k: "u < length ns"
      using Suc.prems(2) lens by simp
    from step[unfolded t] u_k show "progress u (Suc k) (ns0, nw0) t'"
    proof (cases rule: direct_step_cases)
      case skip
      with skip_progress[OF Suc.prems(2) k P[unfolded t]] show ?thesis by simp
    next
      case (stray a)
      with no_stray[OF sh_k _ stray(1)] k lens show ?thesis by simp
    next
      case (descend a j)
      let ?ns1 = "ns[j := reach_node (ns ! u) (start_arc (ns ! u) a) (ns ! j)]"
      let ?nw1 = "nw[k := end_arc mx (ns ! u) (ns ! j) (start_arc (ns ! u) a)]"
      from first_node_at_Some[OF descend(2)] have j: "j < length ns"
        by simp
      have ix_j: "n_index (ns ! j) = int j"
        using sh_k j by (simp add: shape_def indexed_def)
      have "same_frame (ns, nw) (?ns1, ?nw1)"
        using j k lens match_arc_Some(3,4)[OF descend(1)]
        by (intro same_frame_update)
          (simp_all add: start_arc_fields end_arc_fields reach_node_fields)
      with sh_k have sh1: "shape (?ns1, ?nw1)"
        by (rule same_frame_shape)
      have call: "direct_network depth mx ?ns1 ?nw1 (int j) = Inr (ns2, nw2)"
        using descend(3) ix_j t' by simp
      have "progress j (length ?nw1) (?ns1, ?nw1) (ns2, nw2)"
        using sh1 _ call by (rule Suc.IH) (use j in simp)
      then have Q: "progress j (length nw) (?ns1, ?nw1) (ns2, nw2)"
        by simp
      from descend_progress[OF Suc.prems(1,2) k P[unfolded t] descend(1,2) Q] t'
      show ?thesis by simp
    qed
  qed
qed

lemma directed_tree:
  assumes valid: "valid_tree nodes network"
    and run: "direct_network depth mx nodes network 0 = Inr (ns', nw')"
  shows "newly network nw' = {..<length network}"
    and "inj_on (\<lambda>m. node_end (nw' ! m)) {..<length network}"
    and "(\<lambda>m. node_end (nw' ! m)) ` {..<length network} = int ` {1..<length nodes}"
    and "\<forall>m<length network. good ns' (nw' ! m)
           \<and> (\<exists>p<length nodes. node_start (nw' ! m) = int p)"
proof -
  let ?n = "length nodes"
  let ?N = "newly network nw'"
  let ?f = "\<lambda>m. nat (node_end (nw' ! m))"
  from valid have n0: "0 < ?n" and ix: "indexed nodes" and dist: "distinct (map coords nodes)"
    and count: "length network + 1 = ?n"
    and fresh: "\<forall>a\<in>set network. directed a \<noteq> 1"
    and at_nodes: "\<forall>a\<in>set network. edge a \<subseteq> coords ` set nodes"
    and conn: "\<forall>n\<in>set nodes. linked network (coords (nodes ! 0)) (coords n)"
    by (auto simp: valid_tree_def)
  have sh: "shape (nodes, network)"
    using ix dist at_nodes by (simp add: shape_def)
  from direct_network_progress[OF sh n0] run
  have P: "progress 0 (length network) (nodes, network) (ns', nw')"
    by simp
  then have fr: "same_frame (nodes, network) (ns', nw')"
    and dn: "done_at (coords (nodes ! 0)) (length network) nw'"
    and ed: "ends_done network nw'" and pl: "placed nodes network nw'"
    and ro: "rooted 0 network nw'" and me: "measured 0 ns' network nw'"
    by (simp_all add: progress_def)
  have N_iff: "m \<in> ?N \<longleftrightarrow> m < length network \<and> directed (nw' ! m) = 1" for m
    using fresh by (auto simp: newly_def)
  have placedE: "\<exists>p<?n. \<exists>j<?n. node_start (nw' ! m) = int p \<and> node_end (nw' ! m) = int j
         \<and> coords (nodes ! p) = a_start (nw' ! m) \<and> coords (nodes ! j) = a_end (nw' ! m)"
    if "m \<in> ?N" for m
    using pl that by (simp add: placed_def)
  define V where "V = insert 0 (?f ` ?N)"
  define U where "U = (\<lambda>p. coords (nodes ! p)) ` V"
  have V_less: "p < ?n" if "p \<in> V" for p
  proof (cases "p = 0")
    case True
    with n0 show ?thesis by simp
  next
    case False
    with that obtain m where "m \<in> ?N" "p = ?f m"
      by (auto simp: V_def)
    with placedE[of m] show ?thesis by auto
  qed
  have closed: "\<forall>a\<in>set network. edge a \<inter> U \<noteq> {} \<longrightarrow> edge a \<subseteq> U"
  proof (intro ballI impI)
    fix a assume "a \<in> set network" and meet: "edge a \<inter> U \<noteq> {}"
    then obtain i where i: "i < length network" and a: "a = network ! i"
      by (auto simp: in_set_conv_nth)
    have same: "edge (nw' ! i) = edge a"
      using same_frame_edge[OF fr i] a by simp
    from meet obtain p where p: "p \<in> V" and touch: "coords (nodes ! p) \<in> edge a"
      by (auto simp: U_def)
    have "directed (nw' ! i) = 1"
    proof (cases "p = 0")
      case True
      with dn i touch same show ?thesis
        by (simp add: done_at_def)
    next
      case False
      with p obtain m where m: "m \<in> ?N" "p = ?f m"
        by (auto simp: V_def)
      with placedE[OF m(1)] have "coords (nodes ! p) = a_end (nw' ! m)"
        by auto
      with ed m(1) i touch same show ?thesis
        by (simp add: ends_done_def done_at_def)
    qed
    with i have iN: "i \<in> ?N"
      by (simp add: N_iff)
    from placedE[OF iN] obtain ps pe where ends: "ps < ?n" "pe < ?n"
      "node_start (nw' ! i) = int ps" "node_end (nw' ! i) = int pe"
      "coords (nodes ! ps) = a_start (nw' ! i)" "coords (nodes ! pe) = a_end (nw' ! i)"
      by auto
    have "pe \<in> V"
      using iN ends(4) by (force simp: V_def)
    moreover have "ps \<in> V"
    proof -
      from ro iN have "node_start (nw' ! i) = int 0
         \<or> (\<exists>m'\<in>?N. node_start (nw' ! i) = node_end (nw' ! m'))"
        by (simp add: rooted_def)
      then show ?thesis
      proof
        assume "node_start (nw' ! i) = int 0"
        with ends(3) show ?thesis by (simp add: V_def)
      next
        assume "\<exists>m'\<in>?N. node_start (nw' ! i) = node_end (nw' ! m')"
        then obtain m' where "m' \<in> ?N" "node_start (nw' ! i) = node_end (nw' ! m')"
          by auto
        with ends(3) show ?thesis by (force simp: V_def)
      qed
    qed
    ultimately have "coords (nodes ! ps) \<in> U" "coords (nodes ! pe) \<in> U"
      by (simp_all add: U_def)
    then have "a_start (nw' ! i) \<in> U" "a_end (nw' ! i) \<in> U"
      using ends(5,6) by simp_all
    then have "edge (nw' ! i) \<subseteq> U"
      by (simp add: edge_def)
    with same show "edge a \<subseteq> U" by simp
  qed
  have root_U: "coords (nodes ! 0) \<in> U"
    by (simp add: U_def V_def)
  have all_V: "p \<in> V" if p: "p < ?n" for p
  proof -
    from p have "nodes ! p \<in> set nodes" by simp
    with conn have "linked network (coords (nodes ! 0)) (coords (nodes ! p))"
      by simp
    from linked_closed[OF this root_U closed] obtain q where q: "q \<in> V"
      and eq: "coords (nodes ! q) = coords (nodes ! p)"
      by (auto simp: U_def)
    from V_less[OF q] p eq dist have "q = p"
      by (auto simp: distinct_conv_nth)
    with q show ?thesis by simp
  qed
  have sub: "{1..<?n} \<subseteq> ?f ` ?N"
  proof
    fix p assume "p \<in> {1..<?n}"
    then have "p < ?n" "p \<noteq> 0" by auto
    with all_V[of p] show "p \<in> ?f ` ?N"
      by (auto simp: V_def)
  qed
  have N_sub: "?N \<subseteq> {..<length network}"
    by (auto simp: newly_def)
  have fin: "finite ?N"
    using N_sub by (rule finite_subset) simp
  have "card {1..<?n} \<le> card (?f ` ?N)"
    using sub fin by (intro card_mono) simp_all
  moreover have "card (?f ` ?N) \<le> card ?N"
    using fin by (rule card_image_le)
  moreover have "card ?N \<le> card {..<length network}"
    using N_sub by (intro card_mono) simp_all
  moreover have "card {..<length network} = card {1..<?n}"
    using count by simp
  ultimately have cards: "card (?f ` ?N) = card ?N" "card ?N = card {..<length network}"
    "card {1..<?n} = card (?f ` ?N)"
    by simp_all
  from N_sub cards(2) show all_N: "?N = {..<length network}"
    by (intro card_subset_eq) simp_all
  have inj: "inj_on ?f ?N"
    using fin cards(1) by (rule eq_card_imp_inj_on)
  have img: "?f ` ?N = {1..<?n}"
    using sub cards(3) fin by (intro card_subset_eq[symmetric]) simp_all
  have as_int: "node_end (nw' ! m) = int (?f m)" if "m \<in> ?N" for m
    using placedE[OF that] by auto
  show "inj_on (\<lambda>m. node_end (nw' ! m)) {..<length network}"
  proof (rule inj_onI)
    fix m m' assume mm: "m \<in> {..<length network}" "m' \<in> {..<length network}"
      and "node_end (nw' ! m) = node_end (nw' ! m')"
    then have "?f m = ?f m'" by simp
    with inj mm all_N show "m = m'"
      by (simp add: inj_on_def)
  qed
  show "(\<lambda>m. node_end (nw' ! m)) ` {..<length network} = int ` {1..<?n}"
  proof -
    have "(\<lambda>m. node_end (nw' ! m)) ` ?N = int ` (?f ` ?N)"
      using as_int by (auto simp: image_iff)
    with img all_N show ?thesis by simp
  qed
  have "\<not> clash 0 ?N nw'"
  proof
    assume "clash 0 ?N nw'"
    then consider m where "m \<in> ?N" "node_end (nw' ! m) = int 0"
      | m m' where "m \<in> ?N" "m' \<in> ?N" "m \<noteq> m'" "node_end (nw' ! m) = node_end (nw' ! m')"
      by (auto simp: clash_def)
    then show False
    proof cases
      case 1
      then have "0 \<in> ?f ` ?N" by force
      with img show ?thesis by simp
    next
      case 2
      then have "?f m = ?f m'" by simp
      with inj 2(1,2,3) show ?thesis by (simp add: inj_on_def)
    qed
  qed
  with me have all_good: "\<forall>m\<in>?N. good ns' (nw' ! m)"
    by (simp add: measured_def)
  show "\<forall>m<length network. good ns' (nw' ! m)
           \<and> (\<exists>p<length nodes. node_start (nw' ! m) = int p)"
  proof (intro allI impI)
    fix m assume "m < length network"
    with all_N have mN: "m \<in> ?N" by simp
    from placedE[OF mN] obtain p where "p < ?n" "node_start (nw' ! m) = int p"
      by auto
    with all_good mN show "good ns' (nw' ! m)
           \<and> (\<exists>p<length nodes. node_start (nw' ! m) = int p)"
      by auto
  qed
qed

text \<open>
  Claim C6. After direct_network, called from node 0 on a valid spanning tree,
  returns: for every node v other than node 0, exactly one arc has v as its directed
  end, and the cumulative distance of v is the cumulative distance of its parent, the
  start node of that arc, plus the marginal distance of v; node 0 is the directed end
  of no arc.
\<close>

theorem directed_tree_distances:
  assumes "valid_tree nodes network"
    and "direct_network depth mx nodes network 0 = Inr (ns', nw')"
    and "0 < v" and "v < length nodes"
  shows "(\<exists>m<length nw'. node_end (nw' ! m) = int v
            \<and> (\<forall>k<length nw'. node_end (nw' ! k) = int v \<longrightarrow> k = m)
            \<and> (\<exists>u<length nodes. node_start (nw' ! m) = int u
                  \<and> tot_dist (ns' ! v) = tot_dist (ns' ! u) + marg_dist (ns' ! v)))
       \<and> (\<forall>k<length nw'. node_end (nw' ! k) \<noteq> 0)"
proof -
  note tree = directed_tree[OF assms(1,2)]
  from assms(1) have ix: "indexed nodes" and dist: "distinct (map coords nodes)"
    and at_nodes: "\<forall>a\<in>set network. edge a \<subseteq> coords ` set nodes"
    and n0: "0 < length nodes"
    by (simp_all add: valid_tree_def)
  have sh: "shape (nodes, network)"
    using ix dist at_nodes by (simp add: shape_def)
  from direct_network_progress[OF sh n0] assms(2)
  have "same_frame (nodes, network) (ns', nw')"
    by (simp add: progress_def)
  from same_frame_lengths[OF this] have len: "length nw' = length network"
    by simp
  from assms(3,4) have "int v \<in> int ` {1..<length nodes}"
    by simp
  with tree(3) have "int v \<in> (\<lambda>m. node_end (nw' ! m)) ` {..<length network}"
    by simp
  then obtain m where m: "m < length network" "node_end (nw' ! m) = int v"
    by (elim imageE) simp
  from tree(4) m(1) have g: "good ns' (nw' ! m)"
    and "\<exists>p<length nodes. node_start (nw' ! m) = int p"
    by simp_all
  then obtain u where u: "u < length nodes" "node_start (nw' ! m) = int u"
    by blast
  have unique: "\<forall>k<length nw'. node_end (nw' ! k) = int v \<longrightarrow> k = m"
  proof (intro allI impI)
    fix k assume k: "k < length nw'" "node_end (nw' ! k) = int v"
    with m len have "k \<in> {..<length network}" "m \<in> {..<length network}"
      "node_end (nw' ! k) = node_end (nw' ! m)"
      by simp_all
    with tree(2) show "k = m"
      by (simp add: inj_on_def)
  qed
  have dist_v: "tot_dist (ns' ! v) = tot_dist (ns' ! u) + marg_dist (ns' ! v)"
    using g m(2) u(2) by (simp add: good_def)
  have no_root: "\<forall>k<length nw'. node_end (nw' ! k) \<noteq> 0"
  proof (intro allI impI)
    fix k assume "k < length nw'"
    with len have "node_end (nw' ! k) \<in> (\<lambda>m. node_end (nw' ! m)) ` {..<length network}"
      by simp
    with tree(3) have "node_end (nw' ! k) \<in> int ` {1..<length nodes}"
      by simp
    then obtain w where "w \<in> {1..<length nodes}" "node_end (nw' ! k) = int w"
      by (elim imageE)
    then show "node_end (nw' ! k) \<noteq> 0"
      by simp
  qed
  have parent: "\<exists>u<length nodes. node_start (nw' ! m) = int u
                  \<and> tot_dist (ns' ! v) = tot_dist (ns' ! u) + marg_dist (ns' ! v)"
    using u dist_v by blast
  have "m < length nw'"
    using m(1) len by simp
  with m(2) unique parent
  have "\<exists>m<length nw'. node_end (nw' ! m) = int v
            \<and> (\<forall>k<length nw'. node_end (nw' ! k) = int v \<longrightarrow> k = m)
            \<and> (\<exists>u<length nodes. node_start (nw' ! m) = int u
                  \<and> tot_dist (ns' ! v) = tot_dist (ns' ! u) + marg_dist (ns' ! v))"
    by blast
  then show ?thesis
    by (rule conjI[OF _ no_root])
qed

lemma raw_run:
  "direct_network 5 100 raw_nodes raw_network 0 = Inr (directed_nodes, village_network)"
  by code_simp

lemma raw_linked:
  "linked raw_network (0, 0) (0, 0)" "linked raw_network (0, 0) (3, 4)"
  "linked raw_network (0, 0) (3, 0)" "linked raw_network (0, 0) (6, 4)"
proof -
  show root: "linked raw_network (0, 0) (0, 0)"
    by (rule linked_here)
  show one: "linked raw_network (0, 0) (3, 4)"
    by (rule linked_step[OF root, of "new_arc 1 3 4 0 0 5"])
      (auto simp: raw_network_def new_arc_def edge_def a_start_def a_end_def)
  show "linked raw_network (0, 0) (3, 0)"
    by (rule linked_step[OF root, of "new_arc 2 0 0 3 0 3"])
      (auto simp: raw_network_def new_arc_def edge_def a_start_def a_end_def)
  show "linked raw_network (0, 0) (6, 4)"
    by (rule linked_step[OF one, of "new_arc 0 6 4 3 4 3"])
      (auto simp: raw_network_def new_arc_def edge_def a_start_def a_end_def)
qed

lemma raw_valid: "valid_tree raw_nodes raw_network"
  unfolding valid_tree_def
proof (intro conjI)
  show "raw_nodes \<noteq> []"
    by (simp add: raw_nodes_def)
  show "indexed raw_nodes"
    by (rule raw_indexed)
  show "distinct (map coords raw_nodes)"
    by (simp add: raw_nodes_def new_node_def coords_def)
  show "length raw_network + 1 = length raw_nodes"
    by (simp add: raw_network_def raw_nodes_def)
  show "\<forall>a\<in>set raw_network. directed a \<noteq> 1 \<and> edge a \<subseteq> coords ` set raw_nodes"
    by (simp add: raw_network_def raw_nodes_def new_arc_def new_node_def coords_def edge_def
        a_start_def a_end_def)
  show "\<forall>n\<in>set raw_nodes. linked raw_network (coords (raw_nodes ! 0)) (coords n)"
    using raw_linked by (simp add: raw_nodes_def new_node_def coords_def)
qed

theorem directed_tree_distances_witness:
  "valid_tree raw_nodes raw_network
   \<and> direct_network 5 100 raw_nodes raw_network 0 = Inr (directed_nodes, village_network)
   \<and> (\<exists>m<length village_network. node_end (village_network ! m) = int 3
         \<and> (\<forall>k<length village_network. node_end (village_network ! k) = int 3 \<longrightarrow> k = m)
         \<and> (\<exists>u<length raw_nodes. node_start (village_network ! m) = int u
               \<and> tot_dist (directed_nodes ! 3)
                   = tot_dist (directed_nodes ! u) + marg_dist (directed_nodes ! 3)))"
proof -
  have v: "(0::nat) < 3" "3 < length raw_nodes"
    by (simp_all add: raw_nodes_def)
  from directed_tree_distances[OF raw_valid raw_run v]
  have found: "\<exists>m<length village_network. node_end (village_network ! m) = int 3
         \<and> (\<forall>k<length village_network. node_end (village_network ! k) = int 3 \<longrightarrow> k = m)
         \<and> (\<exists>u<length raw_nodes. node_start (village_network ! m) = int u
               \<and> tot_dist (directed_nodes ! 3)
                   = tot_dist (directed_nodes ! u) + marg_dist (directed_nodes ! 3))"
    by (rule conjunct1)
  show ?thesis
    by (rule conjI[OF raw_valid conjI[OF raw_run found]])
qed

end
